theory Spec2Isabelle
  imports Main
begin

section \<open>JavaScript strings and the regular expressions of the scanner\<close>

text \<open>
  A JavaScript string is a sequence of UTF-16 code units; \<open>length\<close>, \<open>.\<close>, \<open>\s\<close>
  and \<open>\S\<close> all count and test single code units (none of the scanner's regular
  expressions carries the \<open>u\<close> flag). A string is therefore modelled as the list of its
  code units, each a natural number below 65536.
\<close>

type_synonym jstring = "nat list"

definition asc :: "string \<Rightarrow> jstring" where
  "asc s = map of_char s"

text \<open>
  \<open>\s\<close>, \<open>trim\<close> and \<open>trimStart\<close> share one set: ECMAScript WhiteSpace together
  with LineTerminator.
\<close>

definition isSpace :: "nat \<Rightarrow> bool" where
  "isSpace c \<longleftrightarrow>
     c = 0x09 \<or> c = 0x0A \<or> c = 0x0B \<or> c = 0x0C \<or> c = 0x0D \<or> c = 0x20 \<or> c = 0xA0 \<or>
     c = 0x1680 \<or> (0x2000 \<le> c \<and> c \<le> 0x200A) \<or> c = 0x2028 \<or> c = 0x2029 \<or>
     c = 0x202F \<or> c = 0x205F \<or> c = 0x3000 \<or> c = 0xFEFF"

text \<open>The code units that \<open>.\<close> refuses (no \<open>s\<close> flag).\<close>

definition isLineTerminator :: "nat \<Rightarrow> bool" where
  "isLineTerminator c \<longleftrightarrow> c = 0x0A \<or> c = 0x0D \<or> c = 0x2028 \<or> c = 0x2029"

definition isDigit :: "nat \<Rightarrow> bool" where
  "isDigit c \<longleftrightarrow> 0x30 \<le> c \<and> c \<le> 0x39"

definition trimStart :: "jstring \<Rightarrow> jstring" where
  "trimStart s = dropWhile isSpace s"

definition trimEnd :: "jstring \<Rightarrow> jstring" where
  "trimEnd s = rev (dropWhile isSpace (rev s))"

definition trim :: "jstring \<Rightarrow> jstring" where
  "trim s = trimEnd (trimStart s)"

text \<open>
  \<open>String.prototype.toLowerCase\<close>. On a string of Basic Latin code units it turns
  \<open>A\<close>..\<open>Z\<close> into \<open>a\<close>..\<open>z\<close> and leaves every other code unit alone. On a string with
  a code unit beyond Basic Latin the result is read from the Unicode case tables,
  which are not part of this development: the lower-casing of such strings is the
  parameter \<open>lc\<close>, about which nothing is assumed.
\<close>

type_synonym case_table = "jstring \<Rightarrow> jstring"

definition toLowerCase :: "case_table \<Rightarrow> jstring \<Rightarrow> jstring" where
  "toLowerCase lc s =
     (if list_all (\<lambda>c. c < 0x80) s
      then map (\<lambda>c. if 0x41 \<le> c \<and> c \<le> 0x5A then c + 0x20 else c) s
      else lc s)"

text \<open>
  \<open>Array.from(new Set(xs))\<close>: a set iterates in insertion order, so the first
  occurrence of every element is the one that stays.
\<close>

fun dedupFirst :: "'a list \<Rightarrow> 'a list \<Rightarrow> 'a list" where
  "dedupFirst seen [] = []"
| "dedupFirst seen (x # xs) =
     (if x \<in> set seen then dedupFirst seen xs else x # dedupFirst (x # seen) xs)"

definition startsWith :: "jstring \<Rightarrow> jstring \<Rightarrow> bool" where
  "startsWith p s \<longleftrightarrow> take (length p) s = p"

text \<open>
  A matcher tells whether its regular expression matches at the very start of the
  string it is given, and then returns the captured group and the length of the whole
  match. None of the expressions below matches the empty string.
\<close>

type_synonym matcher = "jstring \<Rightarrow> (jstring \<times> nat) option"

text \<open>\<open>/#\S+/\<close>: the capture is the whole match.\<close>

definition tagAt :: matcher where
  "tagAt s =
     (case s of
        [] \<Rightarrow> None
      | c # r \<Rightarrow>
          (let body = takeWhile (\<lambda>x. \<not> isSpace x) r
           in if c = 0x23 \<and> body \<noteq> [] then Some (c # body, Suc (length body)) else None))"

text \<open>
  \<open>/M\s*(\S+)/\<close> for a literal marker \<open>M\<close>. \<open>\s*\<close> is greedy and what follows it must
  be a non-space, so the only way to match is to skip all the white space.
\<close>

definition markAt :: "jstring \<Rightarrow> matcher" where
  "markAt mark s =
     (if mark \<noteq> [] \<and> startsWith mark s then
        (let r = drop (length mark) s;
             r' = dropWhile isSpace r;
             cap = takeWhile (\<lambda>x. \<not> isSpace x) r'
         in if cap = [] then None
            else Some (cap, length mark + (length r - length r') + length cap))
      else None)"

text \<open>\<open>/\d{4}-\d{2}-\d{2}/\<close> at the start of a string.\<close>

definition isDatePayload :: "jstring \<Rightarrow> bool" where
  "isDatePayload d \<longleftrightarrow>
     (case d of
        [y1, y2, y3, y4, h1, m1, m2, h2, d1, d2] \<Rightarrow>
          isDigit y1 \<and> isDigit y2 \<and> isDigit y3 \<and> isDigit y4 \<and> h1 = 0x2D \<and>
          isDigit m1 \<and> isDigit m2 \<and> h2 = 0x2D \<and> isDigit d1 \<and> isDigit d2
      | _ \<Rightarrow> False)"

text \<open>\<open>/M\s*(\d{4}-\d{2}-\d{2})/\<close> for a literal marker \<open>M\<close>.\<close>

definition dateAt :: "jstring \<Rightarrow> matcher" where
  "dateAt mark s =
     (if mark \<noteq> [] \<and> startsWith mark s then
        (let r = drop (length mark) s;
             r' = dropWhile isSpace r;
             cap = take 10 r'
         in if isDatePayload cap
            then Some (cap, length mark + (length r - length r') + 10)
            else None)
      else None)"

text \<open>The alternation \<open>A|B\<close>: the left branch is tried first.\<close>

definition orElse :: "matcher \<Rightarrow> matcher \<Rightarrow> matcher" where
  "orElse m1 m2 s = (case m1 s of Some r \<Rightarrow> Some r | None \<Rightarrow> m2 s)"

text \<open>\<open>s.match(re)\<close> without the \<open>g\<close> flag: the capture of the leftmost match.\<close>

fun firstMatch :: "matcher \<Rightarrow> jstring \<Rightarrow> jstring option" where
  "firstMatch m [] = None"
| "firstMatch m (c # cs) =
     (case m (c # cs) of Some (cap, n) \<Rightarrow> Some cap | None \<Rightarrow> firstMatch m cs)"

text \<open>
  \<open>s.match(re)\<close> and \<open>s.matchAll(re)\<close> with the \<open>g\<close> flag: the captures of all
  matches, left to right, each search resuming where the previous match ended.
\<close>

fun matchAll :: "matcher \<Rightarrow> jstring \<Rightarrow> jstring list" where
  "matchAll m [] = []"
| "matchAll m (c # cs) =
     (case m (c # cs) of
        Some (cap, Suc n) \<Rightarrow> cap # matchAll m (drop n cs)
      | _ \<Rightarrow> matchAll m cs)"

text \<open>\<open>s.replace(re, '')\<close> with the \<open>g\<close> flag: every match is cut out.\<close>

fun removeAll :: "matcher \<Rightarrow> jstring \<Rightarrow> jstring" where
  "removeAll m [] = []"
| "removeAll m (c # cs) =
     (case m (c # cs) of
        Some (cap, Suc n) \<Rightarrow> removeAll m (drop n cs)
      | _ \<Rightarrow> c # removeAll m cs)"

text \<open>
  \<open>/^- \[(.)\]\s*(.+)$/\<close> on a line that has no \<open>\n\<close> in it: the status character
  and the content. \<open>(.+)$\<close> has to reach the end of the string through code units
  that are not line terminators. When the remainder after \<open>]\<close> is white space only,
  \<open>\s*\<close> gives back its last code unit and \<open>(.+)\<close> takes it.
\<close>

definition matchTaskLine :: "jstring \<Rightarrow> (nat \<times> jstring) option" where
  "matchTaskLine s =
     (case s of
        a # b # c # st # d # r \<Rightarrow>
          (if a = 0x2D \<and> b = 0x20 \<and> c = 0x5B \<and> \<not> isLineTerminator st \<and> d = 0x5D then
             (let r' = dropWhile isSpace r
              in if r' \<noteq> [] then
                   (if list_ex isLineTerminator r' then None else Some (st, r'))
                 else if r \<noteq> [] \<and> \<not> isLineTerminator (last r) then Some (st, [last r])
                 else None)
           else None)
      | _ \<Rightarrow> None)"

text \<open>The decimal rendering of a line index inside a template literal.\<close>

fun decimal :: "nat \<Rightarrow> jstring" where
  "decimal n = (if n < 10 then [0x30 + n] else decimal (n div 10) @ [0x30 + n mod 10])"

declare decimal.simps [simp del]

section \<open>Tasks\<close>

text \<open>
  The fields of \<open>Task\<close> in \<open>types.ts\<close> other than \<open>children\<close>. A \<open>Date\<close> is kept as
  the \<open>YYYY-MM-DD\<close> payload it is constructed from; \<open>undefined\<close> and \<open>null\<close> are
  \<open>None\<close>. An outlink \<open>{subpath: s}\<close> is kept as \<open>s\<close>.
\<close>

record task_fields =
  taskId :: jstring
  taskText :: jstring
  completed :: bool
  parent :: "jstring option"
  blockers :: "jstring list"
  taskFile :: jstring
  line :: nat
  depth :: nat
  tags :: "jstring list"
  scheduled :: "jstring option"
  start :: "jstring option"
  outlinks :: "jstring list option"
  blockId :: "jstring option"

text \<open>
  The literal markers of a variant of the view: the canvas view
  (\<open>TasksGraphView.ts\<close>) and the SVG view differ in nothing else while a line is
  parsed.
\<close>

record markers =
  idMark :: jstring
  blockerMark :: jstring
  scheduledMark :: jstring
  startMark :: jstring
  doneGlyph :: jstring

definition canvasMarkers :: markers where
  "canvasMarkers =
     \<lparr> idMark = [0xD83C, 0xDD94], blockerMark = [0x26D4], scheduledMark = [0x23F3],
       startMark = [0xD83D, 0xDEEB], doneGlyph = [0x2705] \<rparr>"

text \<open>The SVG view's source file holds these code units where the canvas view has one emoji each.\<close>

definition svgMarkers :: markers where
  "svgMarkers =
     \<lparr> idMark = [0xF0, 0x178, 0x2020, 0x201D], blockerMark = [0xE2, 0x203A, 0x201D],
       scheduledMark = [0xE2, 0xB3], startMark = [0xF0, 0x178, 0x203A, 0xAB],
       doneGlyph = [0xE2, 0x153, 0x2026] \<rparr>"

text \<open>
  What the metadata cache knows of a file: its list items (start line and block id)
  and its links. Either may be missing, and so may the cache entry itself.
\<close>

record file_cache =
  listItems :: "(nat \<times> jstring option) list option"
  fileLinks :: "jstring list option"

record md_file =
  path :: jstring
  content :: jstring
  cache :: "file_cache option"

text \<open>\<open>listItems?.find(item => item.position.start.line === i)?.id\<close>\<close>

definition blockIdAt :: "file_cache option \<Rightarrow> nat \<Rightarrow> jstring option" where
  "blockIdAt c i =
     (case c of
        None \<Rightarrow> None
      | Some ch \<Rightarrow>
          (case listItems ch of
             None \<Rightarrow> None
           | Some items \<Rightarrow>
               (case List.find (\<lambda>item. fst item = i) items of
                  None \<Rightarrow> None
                | Some item \<Rightarrow> snd item)))"

text \<open>\<open>cache?.links?.map(l => ({ subpath: l.link }))\<close>\<close>

definition outlinksOf :: "file_cache option \<Rightarrow> jstring list option" where
  "outlinksOf c = (case c of None \<Rightarrow> None | Some ch \<Rightarrow> fileLinks ch)"

text \<open>\<open>`task-${file.path}-${i}`\<close>\<close>

definition derivedId :: "jstring \<Rightarrow> nat \<Rightarrow> jstring" where
  "derivedId p i = asc ''task-'' @ p @ asc ''-'' @ decimal i"

text \<open>
  The body of the per-line callback of \<open>collectTasks\<close> from \<open>trimStart\<close> up to the
  construction of the task object: the indentation and the new task, or \<open>None\<close> when
  the line is not a checklist line. The block id and the outlinks are passed in by the
  caller (the SVG view has neither).
\<close>

definition parseLine ::
  "case_table \<Rightarrow> markers \<Rightarrow> jstring \<Rightarrow> jstring option \<Rightarrow> jstring list option \<Rightarrow> nat \<Rightarrow> jstring
     \<Rightarrow> (nat \<times> task_fields) option" where
  "parseLine lc mk p bid outs i ln =
     (let trimmed = trimStart ln;
          indent = length ln - length trimmed
      in case matchTaskLine trimmed of
           None \<Rightarrow> None
         | Some (st, text0) \<Rightarrow>
             (let tagMatches = matchAll tagAt text0;
                  tgs = dedupFirst [] (map (toLowerCase lc) tagMatches);
                  text1 = trim (removeAll tagAt text0);
                  idM = firstMatch (markAt (idMark mk)) text1;
                  blockerMs = matchAll (markAt (blockerMark mk)) text1;
                  text2 = trim (removeAll (orElse (markAt (idMark mk)) (markAt (blockerMark mk))) text1);
                  schedM = firstMatch (dateAt (scheduledMark mk)) text2;
                  startM = firstMatch (dateAt (startMark mk)) text2;
                  text3 = trim (removeAll (dateAt (startMark mk))
                                  (removeAll (dateAt (scheduledMark mk)) text2))
              in Some (indent,
                   \<lparr> taskId = (case idM of Some x \<Rightarrow> x | None \<Rightarrow> derivedId p i),
                     taskText = text3, completed = (st \<noteq> 0x20), parent = None,
                     blockers = blockerMs, taskFile = p, line = i, depth = 0,
                     tags = tgs, scheduled = schedM, start = startM,
                     outlinks = outs, blockId = bid \<rparr>)))"

section \<open>Scanning the vault: \<open>collectTasks\<close>\<close>

text \<open>
  \<open>collectTasks\<close> creates one object per checklist line, pushes it onto \<open>tasks\<close> at
  once and later still appends to its \<open>children\<close> array through the reference held
  on the stack. The objects therefore live in a store: the store is the \<open>tasks\<close> array
  itself, a reference is an index into it (every object is pushed exactly once, when it
  is created), and \<open>children\<close> holds references.
\<close>

record task_obj =
  fieldsOf :: task_fields
  childRefs :: "nat list"

text \<open>
  The state of a scan: the \<open>tasks\<close> array, the view's \<open>allTags\<close> set (in insertion
  order) and the stack of the file being read, top first, each frame a task reference
  and the indentation of its line.
\<close>

record scan_state =
  tasks :: "task_obj list"
  allTags :: "jstring list"
  stack :: "(nat \<times> nat) list"

text \<open>\<open>s.split('\n')\<close>\<close>

fun splitLines :: "jstring \<Rightarrow> jstring list" where
  "splitLines [] = [[]]"
| "splitLines (c # cs) =
     (if c = 0x0A then [] # splitLines cs
      else (case splitLines cs of [] \<Rightarrow> [[c]] | l # ls \<Rightarrow> (c # l) # ls))"

text \<open>
  \<open>tasks.length >= this.taskLimit\<close>. The limit is whatever integer \<open>parseInt\<close> read
  from the input box; the SVG view has no limit at all (\<open>None\<close>).
\<close>

definition limitReached :: "int option \<Rightarrow> task_obj list \<Rightarrow> bool" where
  "limitReached lim ts = (case lim of None \<Rightarrow> False | Some l \<Rightarrow> l \<le> int (length ts))"

text \<open>
  The hierarchy builder at the end of the callback of \<open>lines.forEach\<close>, for a new
  task \<open>t\<close> on a line indented by \<open>indent\<close>: pop the frames whose indentation is at
  least \<open>indent\<close>; if a frame is left, the task on top becomes the parent (its id and
  its depth are read, and the new reference is appended to its \<open>children\<close>); push the
  new task on the stack and on \<open>tasks\<close>.
\<close>

definition linkAndPush :: "nat \<Rightarrow> task_fields \<Rightarrow> scan_state \<Rightarrow> scan_state" where
  "linkAndPush indent t st =
     (let stk = dropWhile (\<lambda>fr. indent \<le> snd fr) (stack st);
          ref = length (tasks st)
      in case stk of
           [] \<Rightarrow>
             st\<lparr> tasks := tasks st @ [\<lparr> fieldsOf = t, childRefs = [] \<rparr>],
                 stack := [(ref, indent)] \<rparr>
         | fr # below \<Rightarrow>
             (let p = tasks st ! fst fr;
                  t' = t\<lparr> parent := Some (taskId (fieldsOf p)),
                         depth := depth (fieldsOf p) + 1 \<rparr>
              in st\<lparr> tasks := (tasks st)[fst fr := p\<lparr> childRefs := childRefs p @ [ref] \<rparr>]
                                 @ [\<lparr> fieldsOf = t', childRefs = [] \<rparr>],
                     stack := (ref, indent) # fr # below \<rparr>))"

text \<open>
  The callback of \<open>lines.forEach\<close>, for line \<open>snd il\<close> at index \<open>fst il\<close> of file
  \<open>f\<close>: return at once when the limit is reached or the line is no checklist line;
  otherwise add the tags to \<open>allTags\<close> and hand the new task to the hierarchy builder.
\<close>

definition lineStep :: "case_table \<Rightarrow> markers \<Rightarrow> int option \<Rightarrow> md_file \<Rightarrow> nat \<times> jstring \<Rightarrow> scan_state \<Rightarrow> scan_state" where
  "lineStep lc mk lim f il st =
     (if limitReached lim (tasks st) then st
      else
        (case parseLine lc mk (path f) (blockIdAt (cache f) (fst il)) (outlinksOf (cache f))
                (fst il) (snd il) of
           None \<Rightarrow> st
         | Some (indent, t) \<Rightarrow>
             linkAndPush indent t
               (st\<lparr> allTags := allTags st @ dedupFirst (allTags st) (tags t) \<rparr>)))"

text \<open>One file: a fresh stack, then every line in order.\<close>

definition scanFile :: "case_table \<Rightarrow> markers \<Rightarrow> int option \<Rightarrow> md_file \<Rightarrow> scan_state \<Rightarrow> scan_state" where
  "scanFile lc mk lim f st =
     fold (lineStep lc mk lim f) (enumerate 0 (splitLines (content f))) (st\<lparr> stack := [] \<rparr>)"

text \<open>The loop over the files, with its \<open>break\<close>.\<close>

fun scanFiles :: "case_table \<Rightarrow> markers \<Rightarrow> int option \<Rightarrow> md_file list \<Rightarrow> scan_state \<Rightarrow> scan_state" where
  "scanFiles lc mk lim [] st = st"
| "scanFiles lc mk lim (f # fs) st =
     (if limitReached lim (tasks st) then st else scanFiles lc mk lim fs (scanFile lc mk lim f st))"

definition scan :: "case_table \<Rightarrow> markers \<Rightarrow> int option \<Rightarrow> md_file list \<Rightarrow> scan_state" where
  "scan lc mk lim files = scanFiles lc mk lim files \<lparr> tasks = [], allTags = [], stack = [] \<rparr>"

text \<open>The scan of the canvas view (\<open>TasksGraphView.ts\<close>), with its task limit.\<close>

definition scanCanvas :: "case_table \<Rightarrow> int \<Rightarrow> md_file list \<Rightarrow> scan_state" where
  "scanCanvas lc limit files = scan lc canvasMarkers (Some limit) files"

text \<open>
  The scan of the SVG view: no limit, and the metadata cache is never consulted, so
  that no task has a block id or outlinks.
\<close>

definition scanSvg :: "case_table \<Rightarrow> md_file list \<Rightarrow> scan_state" where
  "scanSvg lc files = scan lc svgMarkers None (map (\<lambda>f. f\<lparr> cache := None \<rparr>) files)"

section \<open>Task values\<close>

text \<open>
  \<open>processTasks\<close> only reads the objects it is given, so it is modelled on values:
  a \<open>Task\<close> with its \<open>children\<close> array is a tree.
\<close>

datatype task = Task (props: task_fields) (children: "task list")

text \<open>
  The value of every object of a store, children first: a child is created after its
  parent, so the objects are read from the last one back and a reference \<open>c\<close> is looked
  up among the values already built.
\<close>

fun snapshotFrom :: "nat \<Rightarrow> task_obj list \<Rightarrow> task list" where
  "snapshotFrom k [] = []"
| "snapshotFrom k (ob # obs) =
     (let later = snapshotFrom (Suc k) obs
      in Task (fieldsOf ob) (map (\<lambda>c. later ! (c - Suc k)) (childRefs ob)) # later)"

definition snapshot :: "task_obj list \<Rightarrow> task list" where
  "snapshot ts = snapshotFrom 0 ts"

section \<open>Assembling the graph: \<open>processTasks\<close>\<close>

datatype link_type = Dependency | Hierarchy

record task_link =
  source :: jstring
  target :: jstring
  linkType :: link_type

text \<open>A \<open>TaskNode\<close> that has not been laid out yet is a task (no coordinates).\<close>

record graph =
  nodes :: "task list"
  links :: "task_link list"

text \<open>The fields of the view that scanning and assembling read or write.\<close>

record view_state =
  showCompleted :: bool
  showBlocked :: bool
  showWithoutTags :: bool
  selectedTags :: "jstring set"
  taskLimit :: int
  data :: graph

text \<open>JavaScript truthiness of a \<open>string | null\<close>.\<close>

definition truthy :: "jstring option \<Rightarrow> bool" where
  "truthy s = (case s of None \<Rightarrow> False | Some x \<Rightarrow> x \<noteq> [])"

text \<open>\<open>{ ...t, text: t.completed ? `<glyph> ${t.text}` : t.text }\<close>\<close>

definition toNode :: "markers \<Rightarrow> task \<Rightarrow> task" where
  "toNode mk t =
     Task ((props t)\<lparr> taskText :=
              (if completed (props t) then doneGlyph mk @ [0x20] @ taskText (props t)
               else taskText (props t)) \<rparr>)
          (children t)"

subsection \<open>The SVG view: the visibility filter\<close>

text \<open>The inner function \<open>collect\<close>: the ids of a task and of everything below it.\<close>

fun collect :: "task \<Rightarrow> jstring list" where
  "collect (Task t cs) = taskId t # concat (map collect cs)"

text \<open>
  The inner function \<open>create\<close>: what one call pushes onto \<open>nodes\<close> and onto \<open>links\<close>,
  in the order in which it pushes.
\<close>

fun create :: "view_state \<Rightarrow> task \<Rightarrow> graph" where
  "create v (Task t cs) =
     (let isBlocked = blockers t \<noteq> [];
          hasTag = selectedTags v \<noteq> {} \<and> list_ex (\<lambda>tag. tag \<in> selectedTags v) (tags t);
          noTags = showWithoutTags v \<and> tags t = [];
          tagOk = (selectedTags v = {} \<and> \<not> showWithoutTags v) \<or> hasTag \<or> noTags
      in \<lparr> nodes =
             (if (showCompleted v \<or> \<not> completed t) \<and> (showBlocked v \<or> \<not> isBlocked) \<and> tagOk
              then [toNode svgMarkers (Task t cs)] else [])
             @ concat (map (\<lambda>c. nodes (create v c)) cs),
           links =
             concat (map (\<lambda>c.
               (let cb = blockers (props c) \<noteq> []
                in if (showCompleted v \<or> (\<not> completed t \<and> \<not> completed (props c)))
                      \<and> (showBlocked v \<or> (\<not> isBlocked \<and> \<not> cb))
                   then [\<lparr> source = taskId t, target = taskId (props c), linkType = Hierarchy \<rparr>]
                   else [])
               @ links (create v c)) cs) \<rparr>)"

definition processTasksSvg :: "view_state \<Rightarrow> task list \<Rightarrow> view_state" where
  "processTasksSvg v ts =
     (let roots = filter (\<lambda>t. \<not> truthy (parent (props t))) ts;
          allIds = set (concat (map collect roots));
          ns = concat (map (\<lambda>t. nodes (create v t)) roots);
          hl = concat (map (\<lambda>t. links (create v t)) roots);
          visible = set (map (\<lambda>n. taskId (props n)) ns);
          dl = concat (map (\<lambda>t.
                 if \<not> showBlocked v \<and> blockers (props t) \<noteq> [] then []
                 else concat (map (\<lambda>b.
                        if b \<in> allIds \<and> b \<in> visible \<and> taskId (props t) \<in> visible
                        then [\<lparr> source = b, target = taskId (props t), linkType = Dependency \<rparr>]
                        else []) (blockers (props t)))) ts)
      in v\<lparr> data := \<lparr> nodes = ns, links = hl @ dl \<rparr> \<rparr>)"

text \<open>The whole of the SVG view's \<open>collectTasks\<close>: scan, then assemble.\<close>

definition collectTasksSvg :: "case_table \<Rightarrow> view_state \<Rightarrow> md_file list \<Rightarrow> view_state" where
  "collectTasksSvg lc v files = processTasksSvg v (snapshot (tasks (scanSvg lc files)))"

subsection \<open>The canvas view: \<open>#want\<close> tasks and the tasks that link to them\<close>

definition processTasks :: "view_state \<Rightarrow> task list \<Rightarrow> view_state" where
  "processTasks v ts =
     (let wants = filter (\<lambda>t. asc ''#want'' \<in> set (tags (props t))) ts;
          wantTasks = set (map (\<lambda>t. taskId (props t)) wants);
          wantTaskBlockIds = set (concat (map (\<lambda>t. if truthy (blockId (props t))
                                                    then [the (blockId (props t))] else []) wants));
          linkedTasks = set (map (\<lambda>t. taskId (props t))
                          (filter (\<lambda>t. case outlinks (props t) of
                                          None \<Rightarrow> False
                                        | Some ls \<Rightarrow> list_ex (\<lambda>l. drop 1 l \<in> wantTaskBlockIds) ls) ts));
          allIds = set (map (\<lambda>t. taskId (props t)) ts);
          filteredTasks = filter (\<lambda>t. taskId (props t) \<in> wantTasks \<or> taskId (props t) \<in> linkedTasks) ts;
          ns = map (toNode canvasMarkers) filteredTasks;
          visible = set (map (\<lambda>n. taskId (props n)) ns);
          ls = concat (map (\<lambda>t.
                 (if truthy (parent (props t)) \<and> the (parent (props t)) \<in> visible
                  then [\<lparr> source = the (parent (props t)), target = taskId (props t),
                          linkType = Hierarchy \<rparr>]
                  else [])
                 @ concat (map (\<lambda>b.
                      if b \<in> allIds \<and> b \<in> visible \<and> taskId (props t) \<in> visible
                      then [\<lparr> source = b, target = taskId (props t), linkType = Dependency \<rparr>]
                      else []) (blockers (props t)))) filteredTasks)
      in v\<lparr> data := \<lparr> nodes = ns, links = ls \<rparr> \<rparr>)"

text \<open>The whole of the canvas view's \<open>collectTasks\<close>: scan up to the limit, then assemble.\<close>

definition collectTasks :: "case_table \<Rightarrow> view_state \<Rightarrow> md_file list \<Rightarrow> view_state" where
  "collectTasks lc v files = processTasks v (snapshot (tasks (scanCanvas lc (taskLimit v) files)))"

text \<open>
  \<open>renderGraph\<close> and \<open>updateGraph\<close> hand the simulation only the links whose two ends
  are ids of nodes.
\<close>

definition validLinks :: "graph \<Rightarrow> task_link list" where
  "validLinks g =
     filter (\<lambda>l. list_ex (\<lambda>n. taskId (props n) = source l) (nodes g)
               \<and> list_ex (\<lambda>n. taskId (props n) = target l) (nodes g)) (links g)"

section \<open>Pointer gestures\<close>

text \<open>What the filters read of a DOM event.\<close>

record pointer_event =
  evType :: string
  button :: int
  ctrlKey :: bool

subsection \<open>The SVG view\<close>

text \<open>The \<open>filter\<close> given to \<open>d3.zoom()\<close>, which decides whether pan/zoom reacts at all.\<close>

definition zoomFilter :: "pointer_event \<Rightarrow> bool" where
  "zoomFilter event =
     (if evType event = ''wheel'' then True
      else if evType event = ''mousedown'' \<and> button event = 2 then True
      else False)"

text \<open>The \<open>filter\<close> given to \<open>d3.drag()\<close>.\<close>

definition dragFilter :: "pointer_event \<Rightarrow> bool" where
  "dragFilter event \<longleftrightarrow> button event = 0"

subsection \<open>The canvas view\<close>

text \<open>
  \<open>renderGraph\<close> of the canvas view builds its behaviour with \<open>d3.zoom()\<close>,
  \<open>scaleExtent\<close> and a \<open>zoom\<close> listener and gives it no \<open>filter\<close>, so the behaviour
  keeps the filter it is created with, d3-zoom's
  \<open>(!event.ctrlKey || event.type === 'wheel') && !event.button\<close>. The view's \<open>drag\<close>
  method is never called, so no drag behaviour is attached to the canvas.
\<close>

definition defaultFilter :: "pointer_event \<Rightarrow> bool" where
  "defaultFilter event \<longleftrightarrow> (\<not> ctrlKey event \<or> evType event = ''wheel'') \<and> button event = 0"

section \<open>Notions used in the statements and in the proofs\<close>

subsection \<open>Invariants of the store\<close>

text \<open>Every reference in a \<open>children\<close> array points at an object created later than its holder.\<close>

definition wfStore :: "task_obj list \<Rightarrow> bool" where
  "wfStore ts \<longleftrightarrow> (\<forall>p < length ts. \<forall>c \<in> set (childRefs (ts ! p)). p < c \<and> c < length ts)"

text \<open>
  Task \<open>j\<close> is a root: it names no parent, sits at depth 0, and no \<open>children\<close> array
  holds it.
\<close>

definition rootAt :: "task_obj list \<Rightarrow> nat \<Rightarrow> bool" where
  "rootAt ts j \<longleftrightarrow>
     parent (fieldsOf (ts ! j)) = None \<and> depth (fieldsOf (ts ! j)) = 0 \<and>
     (\<forall>q < length ts. j \<notin> set (childRefs (ts ! q)))"

text \<open>
  Task \<open>j\<close> hangs below task \<open>p\<close>: \<open>p\<close> was created earlier, \<open>j\<close> records the id
  of \<open>p\<close> as its parent and is one level deeper, and the \<open>children\<close> array of \<open>p\<close> is
  the only one that holds \<open>j\<close>.
\<close>

definition childAt :: "task_obj list \<Rightarrow> nat \<Rightarrow> nat \<Rightarrow> bool" where
  "childAt ts p j \<longleftrightarrow>
     p < j \<and> parent (fieldsOf (ts ! j)) = Some (taskId (fieldsOf (ts ! p))) \<and>
     depth (fieldsOf (ts ! j)) = depth (fieldsOf (ts ! p)) + 1 \<and>
     (\<forall>q < length ts. j \<in> set (childRefs (ts ! q)) \<longleftrightarrow> q = p)"

definition hierarchyOk :: "task_obj list \<Rightarrow> bool" where
  "hierarchyOk ts \<longleftrightarrow> (\<forall>j < length ts. rootAt ts j \<or> (\<exists>p. childAt ts p j))"

text \<open>What every step of the scan preserves.\<close>

definition scanInv :: "scan_state \<Rightarrow> bool" where
  "scanInv st \<longleftrightarrow>
     (\<forall>fr \<in> set (stack st). fst fr < length (tasks st)) \<and> wfStore (tasks st) \<and>
     hierarchyOk (tasks st) \<and> (\<forall>j < length (tasks st). taskId (fieldsOf (tasks st ! j)) \<noteq> [])"

text \<open>The store after a new object has been linked below \<open>p\<close> (proof abbreviation).\<close>

definition addChild :: "task_obj list \<Rightarrow> nat \<Rightarrow> task_obj \<Rightarrow> task_obj list" where
  "addChild ts p new = ts[p := (ts ! p)\<lparr> childRefs := childRefs (ts ! p) @ [length ts] \<rparr>] @ [new]"

subsection \<open>The hierarchy as the store holds it\<close>

text \<open>The tasks whose \<open>children\<close> array holds task \<open>j\<close>.\<close>

definition owners :: "task_obj list \<Rightarrow> nat \<Rightarrow> nat list" where
  "owners ts j = filter (\<lambda>q. j \<in> set (childRefs (ts ! q))) [0..<length ts]"

text \<open>The parent-to-child relation of the store.\<close>

definition childRel :: "task_obj list \<Rightarrow> (nat \<times> nat) set" where
  "childRel ts = {(p, c). p < length ts \<and> c \<in> set (childRefs (ts ! p))}"

subsection \<open>The traversal of the SVG view and its filter, as described\<close>

text \<open>A task followed by everything below it, in the order in which \<open>create\<close> visits.\<close>

fun preorder :: "task \<Rightarrow> task list" where
  "preorder (Task t cs) = Task t cs # concat (map preorder cs)"

text \<open>
  The filter as it is described: (show completed or not completed) and (show blocked
  or no blockers) and the tag predicate, where the tag predicate lets every task pass
  when no tag is selected and ``without tags'' is off, and otherwise lets a task pass
  when it has a selected tag, or when ``without tags'' is on and it has no tag.
\<close>

definition specVisible :: "view_state \<Rightarrow> task_fields \<Rightarrow> bool" where
  "specVisible v t \<longleftrightarrow>
     (showCompleted v \<or> \<not> completed t) \<and> (showBlocked v \<or> blockers t = []) \<and>
     (if selectedTags v = {} \<and> \<not> showWithoutTags v then True
      else (\<exists>tag \<in> set (tags t). tag \<in> selectedTags v) \<or> (showWithoutTags v \<and> tags t = []))"

text \<open>The tasks from which \<open>processTasks\<close> of the SVG view starts: \<open>!t.parent\<close>.\<close>

definition roots :: "task list \<Rightarrow> task list" where
  "roots ts = filter (\<lambda>t. \<not> truthy (parent (props t))) ts"

subsection \<open>Graphs\<close>

text \<open>The ids of the emitted nodes.\<close>

definition nodeIds :: "graph \<Rightarrow> jstring set" where
  "nodeIds g = set (map (\<lambda>n. taskId (props n)) (nodes g))"

text \<open>Both ends of every link are ids of nodes.\<close>

definition referentiallyIntact :: "graph \<Rightarrow> bool" where
  "referentiallyIntact g \<longleftrightarrow> list_all (\<lambda>l. source l \<in> nodeIds g \<and> target l \<in> nodeIds g) (links g)"

text \<open>Two view states agree on the four filter toggles.\<close>

definition sameToggles :: "view_state \<Rightarrow> view_state \<Rightarrow> bool" where
  "sameToggles v v' \<longleftrightarrow>
     showCompleted v = showCompleted v' \<and> showBlocked v = showBlocked v' \<and>
     showWithoutTags v = showWithoutTags v' \<and> selectedTags v = selectedTags v'"

subsection \<open>Example inputs\<close>

text \<open>
  The examples have Basic Latin tags only, so that \<open>toLowerCase\<close> never consults the
  case tables; this stand-in for them leaves a string as it is.
\<close>

definition asIs :: case_table where
  "asIs s = s"

text \<open>A view with the tag \<open>#a\<close> selected, and one with no filter at all.\<close>

definition tagFilterView :: view_state where
  "tagFilterView = \<lparr> showCompleted = True, showBlocked = True, showWithoutTags = False,
     selectedTags = {asc ''#a''}, taskLimit = 500, data = \<lparr> nodes = [], links = [] \<rparr> \<rparr>"

text \<open>A note with an untagged task and, below it, a task tagged \<open>#a\<close>.\<close>

definition taggedChildFile :: md_file where
  "taggedChildFile = \<lparr> path = asc ''n.md'', content = asc ''- [ ] p\<newline>  - [ ] c #a'', cache = None \<rparr>"

definition plainView :: view_state where
  "plainView = \<lparr> showCompleted = True, showBlocked = True, showWithoutTags = False,
     selectedTags = {}, taskLimit = 500, data = \<lparr> nodes = [], links = [] \<rparr> \<rparr>"

text \<open>A note with a task, a completed subtask and a second top-level task.\<close>

definition demoFile :: md_file where
  "demoFile = \<lparr> path = asc ''n.md'', content = asc ''- [ ] a\<newline>  - [x] b\<newline>- [ ] c'', cache = None \<rparr>"

text \<open>
  The scan of a note whose only task carries \<open>#want\<close> and a blocker marker naming
  \<open>ghost\<close>, an id that no task has.
\<close>

definition ghostTasks :: "task list" where
  "ghostTasks = snapshot (tasks (scanCanvas asIs 500
     [\<lparr> path = asc ''g.md'', content = asc ''- [ ] a #want '' @ [0x26D4] @ asc '' ghost'', cache = None \<rparr>]))"

subsection \<open>The canvas view's inclusion rule\<close>

text \<open>The task carries the tag \<open>#want\<close>.\<close>

definition carriesWant :: "task \<Rightarrow> bool" where
  "carriesWant t \<longleftrightarrow> asc ''#want'' \<in> set (tags (props t))"

text \<open>
  One of the task's outlinks, with its first character cut off, is the (non-empty)
  block id of a task that carries \<open>#want\<close>.
\<close>

definition linksToWant :: "task list \<Rightarrow> task \<Rightarrow> bool" where
  "linksToWant ts t \<longleftrightarrow>
     (\<exists>ls. outlinks (props t) = Some ls \<and>
        (\<exists>l \<in> set ls. \<exists>w \<in> set ts. carriesWant w \<and> drop 1 l \<noteq> [] \<and> blockId (props w) = Some (drop 1 l)))"

subsection \<open>Source locations and derived ids\<close>

text \<open>Where a task was found: file path and line index.\<close>

definition taskKey :: "task_obj \<Rightarrow> jstring \<times> nat" where
  "taskKey ob = (taskFile (fieldsOf ob), line (fieldsOf ob))"

text \<open>The id of the task is the one derived from its file path and line index.\<close>

definition hasDerivedId :: "task_obj \<Rightarrow> bool" where
  "hasDerivedId ob \<longleftrightarrow>
     taskId (fieldsOf ob) = derivedId (taskFile (fieldsOf ob)) (line (fieldsOf ob))"

text \<open>A note with two tasks whose id markers both say \<open>t1\<close>.\<close>

definition sameIdFile :: md_file where
  "sameIdFile = \<lparr> path = asc ''d.md'',
     content = asc ''- [ ] a '' @ [0xD83C, 0xDD94] @ asc '' t1\<newline>- [ ] b '' @ [0xD83C, 0xDD94] @ asc '' t1'',
     cache = None \<rparr>"

subsection \<open>A vault in which two tasks share an id\<close>

text \<open>
  A note with two tasks whose id markers both say \<open>t1\<close>; only the first carries
  \<open>#want\<close>.
\<close>

definition sharedIdFile :: md_file where
  "sharedIdFile = \<lparr> path = asc ''w.md'',
     content = asc ''- [ ] a #want '' @ [0xD83C, 0xDD94] @ asc '' t1\<newline>- [ ] b '' @ [0xD83C, 0xDD94] @ asc '' t1'',
     cache = None \<rparr>"

text \<open>Its scan by the canvas view.\<close>

definition sharedIdTasks :: "task list" where
  "sharedIdTasks = snapshot (tasks (scanCanvas asIs 500 [sharedIdFile]))"

section \<open>Running a scan on a concrete vault\<close>

text \<open>The definitions that the simplifier unfolds to run a scan on a concrete vault.\<close>

lemmas scan_eval = asc_def trimStart_def trimEnd_def trim_def isSpace_def isLineTerminator_def isDigit_def
  matchTaskLine_def tagAt_def markAt_def dateAt_def orElse_def startsWith_def toLowerCase_def
  parseLine_def canvasMarkers_def svgMarkers_def isDatePayload_def Let_def
  scan_def scanCanvas_def scanSvg_def scanFile_def lineStep_def linkAndPush_def limitReached_def
  blockIdAt_def outlinksOf_def derivedId_def decimal.simps snapshot_def

section \<open>The scan keeps the store well formed\<close>

lemma linkAndPush_root:
  "dropWhile (\<lambda>fr. indent \<le> snd fr) (stack st) = [] \<Longrightarrow>
   linkAndPush indent t st = st\<lparr> tasks := tasks st @ [\<lparr> fieldsOf = t, childRefs = [] \<rparr>],
                 stack := [(length (tasks st), indent)] \<rparr>"
  by (simp only: linkAndPush_def Let_def list.case)

lemma linkAndPush_child:
  "dropWhile (\<lambda>fr. indent \<le> snd fr) (stack st) = fr # below \<Longrightarrow>
   linkAndPush indent t st = st\<lparr> tasks := (tasks st)[fst fr := (tasks st ! fst fr)\<lparr> childRefs := childRefs (tasks st ! fst fr) @ [length (tasks st)] \<rparr>]
                                 @ [\<lparr> fieldsOf = t\<lparr> parent := Some (taskId (fieldsOf (tasks st ! fst fr))),
                         depth := depth (fieldsOf (tasks st ! fst fr)) + 1 \<rparr>, childRefs = [] \<rparr>],
                     stack := (length (tasks st), indent) # fr # below \<rparr>"
  by (simp only: linkAndPush_def Let_def list.case)

lemma wfStore_root:
  assumes "wfStore ts"
  shows "wfStore (ts @ [\<lparr> fieldsOf = t, childRefs = [] \<rparr>])"
  unfolding wfStore_def
proof (intro allI impI ballI)
  fix q c
  assume q: "q < length (ts @ [\<lparr> fieldsOf = t, childRefs = [] \<rparr>])"
    and c: "c \<in> set (childRefs ((ts @ [\<lparr> fieldsOf = t, childRefs = [] \<rparr>]) ! q))"
  show "q < c \<and> c < length (ts @ [\<lparr> fieldsOf = t, childRefs = [] \<rparr>])"
  proof (cases "q = length ts")
    case True
    with c show ?thesis by (simp add: nth_append)
  next
    case False
    with q have ql: "q < length ts" by simp
    with c have "c \<in> set (childRefs (ts ! q))" by (simp add: nth_append)
    with assms ql have "q < c \<and> c < length ts" unfolding wfStore_def by blast
    then show ?thesis by simp
  qed
qed

lemma wfStore_child:
  assumes "wfStore ts" "p < length ts"
  shows "wfStore (ts[p := (ts ! p)\<lparr> childRefs := childRefs (ts ! p) @ [length ts] \<rparr>] @ [\<lparr> fieldsOf = t, childRefs = [] \<rparr>])"
  unfolding wfStore_def
proof (intro allI impI ballI)
  fix q c
  let ?ts' = "ts[p := (ts ! p)\<lparr> childRefs := childRefs (ts ! p) @ [length ts] \<rparr>] @ [\<lparr> fieldsOf = t, childRefs = [] \<rparr>]"
  assume q: "q < length ?ts'" and c: "c \<in> set (childRefs (?ts' ! q))"
  show "q < c \<and> c < length ?ts'"
  proof (cases "q = length ts")
    case True
    with c show ?thesis by (simp add: nth_append)
  next
    case False
    with q have ql: "q < length ts" by simp
    show ?thesis
    proof (cases "q = p")
      case True
      with c ql have "c \<in> set (childRefs (ts ! p)) \<or> c = length ts"
        by (auto simp add: nth_append)
      moreover from assms have "\<forall>c \<in> set (childRefs (ts ! p)). p < c \<and> c < length ts"
        unfolding wfStore_def by blast
      ultimately show ?thesis using True assms(2) by auto
    next
      case False
      with c ql have "c \<in> set (childRefs (ts ! q))" by (simp add: nth_append)
      with assms ql have "q < c \<and> c < length ts" unfolding wfStore_def by blast
      then show ?thesis by simp
    qed
  qed
qed

lemma addChild_length [simp]: "length (addChild ts p new) = Suc (length ts)"
  by (simp add: addChild_def)

lemma addChild_last [simp]: "addChild ts p new ! length ts = new"
  by (simp add: addChild_def nth_append)

lemma addChild_fields: "q < length ts \<Longrightarrow> fieldsOf (addChild ts p new ! q) = fieldsOf (ts ! q)"
  by (cases "q = p") (simp_all add: addChild_def nth_append)

lemma addChild_refs:
  "q < length ts \<Longrightarrow>
   set (childRefs (addChild ts p new ! q)) =
     (if q = p then insert (length ts) (set (childRefs (ts ! q))) else set (childRefs (ts ! q)))"
  by (cases "q = p") (simp_all add: addChild_def nth_append)

lemma wfStore_refs_less: "wfStore ts \<Longrightarrow> q < length ts \<Longrightarrow> c \<in> set (childRefs (ts ! q)) \<Longrightarrow> q < c \<and> c < length ts"
  unfolding wfStore_def by blast

lemma rootAt_addChild:
  assumes "rootAt ts j" "j < length ts" "childRefs new = []"
  shows "rootAt (addChild ts p new) j"
  unfolding rootAt_def
proof (intro conjI allI impI)
  from assms show "parent (fieldsOf (addChild ts p new ! j)) = None"
    by (simp add: addChild_fields rootAt_def)
  from assms show "depth (fieldsOf (addChild ts p new ! j)) = 0"
    by (simp add: addChild_fields rootAt_def)
  fix q assume "q < length (addChild ts p new)"
  then consider "q < length ts" | "q = length ts" by fastforce
  then show "j \<notin> set (childRefs (addChild ts p new ! q))"
  proof cases
    case 1
    with assms(1) have "j \<notin> set (childRefs (ts ! q))" unfolding rootAt_def by blast
    with 1 assms(2) show ?thesis by (auto simp add: addChild_refs)
  next
    case 2
    with assms(3) show ?thesis by simp
  qed
qed

lemma childAt_addChild:
  assumes "childAt ts p0 j" "j < length ts" "childRefs new = []"
  shows "childAt (addChild ts p new) p0 j"
  unfolding childAt_def
proof (intro conjI allI impI)
  from assms have p0: "p0 < j" "p0 < length ts" by (auto simp: childAt_def)
  then show "p0 < j" by simp
  from assms p0 show "parent (fieldsOf (addChild ts p new ! j)) = Some (taskId (fieldsOf (addChild ts p new ! p0)))"
    by (simp add: addChild_fields childAt_def)
  from assms p0 show "depth (fieldsOf (addChild ts p new ! j)) = depth (fieldsOf (addChild ts p new ! p0)) + 1"
    by (simp add: addChild_fields childAt_def)
  fix q assume "q < length (addChild ts p new)"
  then consider "q < length ts" | "q = length ts" by fastforce
  then show "j \<in> set (childRefs (addChild ts p new ! q)) \<longleftrightarrow> q = p0"
  proof cases
    case 1
    with assms(1) have "j \<in> set (childRefs (ts ! q)) \<longleftrightarrow> q = p0" unfolding childAt_def by blast
    with 1 assms(2) show ?thesis by (auto simp add: addChild_refs)
  next
    case 2
    with assms(3) p0 show ?thesis by simp
  qed
qed

lemma childAt_new:
  assumes "wfStore ts" "p < length ts" "childRefs new = []"
    "parent (fieldsOf new) = Some (taskId (fieldsOf (ts ! p)))"
    "depth (fieldsOf new) = depth (fieldsOf (ts ! p)) + 1"
  shows "childAt (addChild ts p new) p (length ts)"
  unfolding childAt_def
proof (intro conjI allI impI)
  show "p < length ts" by fact
  from assms show "parent (fieldsOf (addChild ts p new ! length ts)) = Some (taskId (fieldsOf (addChild ts p new ! p)))"
    by (simp add: addChild_fields)
  from assms show "depth (fieldsOf (addChild ts p new ! length ts)) = depth (fieldsOf (addChild ts p new ! p)) + 1"
    by (simp add: addChild_fields)
  fix q assume "q < length (addChild ts p new)"
  then consider "q < length ts" | "q = length ts" by fastforce
  then show "length ts \<in> set (childRefs (addChild ts p new ! q)) \<longleftrightarrow> q = p"
  proof cases
    case 1
    with assms(1) have "length ts \<notin> set (childRefs (ts ! q))"
      using wfStore_refs_less by blast
    with 1 show ?thesis by (auto simp add: addChild_refs)
  next
    case 2
    with assms(2,3) show ?thesis by simp
  qed
qed

lemma hierarchyOk_addChild:
  assumes "hierarchyOk ts" "wfStore ts" "p < length ts" "childRefs new = []"
    "parent (fieldsOf new) = Some (taskId (fieldsOf (ts ! p)))"
    "depth (fieldsOf new) = depth (fieldsOf (ts ! p)) + 1"
  shows "hierarchyOk (addChild ts p new)"
  unfolding hierarchyOk_def
proof (intro allI impI)
  fix j assume "j < length (addChild ts p new)"
  then consider "j < length ts" | "j = length ts" by fastforce
  then show "rootAt (addChild ts p new) j \<or> (\<exists>p'. childAt (addChild ts p new) p' j)"
  proof cases
    case 1
    with assms(1) have "rootAt ts j \<or> (\<exists>p'. childAt ts p' j)" unfolding hierarchyOk_def by blast
    with 1 assms(4) show ?thesis using rootAt_addChild childAt_addChild by blast
  next
    case 2
    with assms show ?thesis using childAt_new by blast
  qed
qed

lemma rootAt_append:
  assumes "rootAt ts j" "j < length ts" "childRefs new = []"
  shows "rootAt (ts @ [new]) j"
  using assms unfolding rootAt_def
  by (auto simp: nth_append)

lemma childAt_append:
  assumes "childAt ts p0 j" "j < length ts" "childRefs new = []"
  shows "childAt (ts @ [new]) p0 j"
proof -
  from assms have p0: "p0 < j" "p0 < length ts" by (auto simp: childAt_def)
  have "\<And>q. q < length (ts @ [new]) \<Longrightarrow> j \<in> set (childRefs ((ts @ [new]) ! q)) \<longleftrightarrow> q = p0"
  proof -
    fix q assume "q < length (ts @ [new])"
    then consider "q < length ts" | "q = length ts" by fastforce
    then show "j \<in> set (childRefs ((ts @ [new]) ! q)) \<longleftrightarrow> q = p0"
    proof cases
      case 1
      with assms(1) have "j \<in> set (childRefs (ts ! q)) \<longleftrightarrow> q = p0" unfolding childAt_def by blast
      with 1 show ?thesis by (simp add: nth_append)
    next
      case 2
      with assms(3) p0 show ?thesis by simp
    qed
  qed
  with assms p0 show ?thesis unfolding childAt_def by (simp add: nth_append)
qed

lemma rootAt_new:
  assumes "wfStore ts" "childRefs new = []" "parent (fieldsOf new) = None" "depth (fieldsOf new) = 0"
  shows "rootAt (ts @ [new]) (length ts)"
proof -
  have "\<And>q. q < length (ts @ [new]) \<Longrightarrow> length ts \<notin> set (childRefs ((ts @ [new]) ! q))"
  proof -
    fix q assume "q < length (ts @ [new])"
    then consider "q < length ts" | "q = length ts" by fastforce
    then show "length ts \<notin> set (childRefs ((ts @ [new]) ! q))"
    proof cases
      case 1
      with assms(1) have "length ts \<notin> set (childRefs (ts ! q))"
        using wfStore_refs_less by blast
      with 1 show ?thesis by (simp add: nth_append)
    next
      case 2
      with assms(2) show ?thesis by simp
    qed
  qed
  with assms show ?thesis unfolding rootAt_def by simp
qed

lemma hierarchyOk_append:
  assumes "hierarchyOk ts" "wfStore ts" "childRefs new = []"
    "parent (fieldsOf new) = None" "depth (fieldsOf new) = 0"
  shows "hierarchyOk (ts @ [new])"
  unfolding hierarchyOk_def
proof (intro allI impI)
  fix j assume "j < length (ts @ [new])"
  then consider "j < length ts" | "j = length ts" by fastforce
  then show "rootAt (ts @ [new]) j \<or> (\<exists>p'. childAt (ts @ [new]) p' j)"
  proof cases
    case 1
    with assms(1) have "rootAt ts j \<or> (\<exists>p'. childAt ts p' j)" unfolding hierarchyOk_def by blast
    with 1 assms(3) show ?thesis using rootAt_append childAt_append by blast
  next
    case 2
    with assms show ?thesis using rootAt_new by blast
  qed
qed

lemma markAt_nonempty: "markAt m s = Some (cap, n) \<Longrightarrow> cap \<noteq> []"
  by (auto simp: markAt_def Let_def split: if_splits)

lemma firstMatch_markAt_nonempty: "firstMatch (markAt m) s = Some x \<Longrightarrow> x \<noteq> []"
proof (induction s)
  case Nil
  then show ?case by simp
next
  case (Cons c cs)
  show ?case
  proof (cases "markAt m (c # cs)")
    case None
    with Cons show ?thesis by simp
  next
    case (Some r)
    obtain cap n where r: "r = (cap, n)" by (cases r)
    with Some Cons.prems have "x = cap" by simp
    with Some r show ?thesis using markAt_nonempty by blast
  qed
qed

lemma derivedId_nonempty: "derivedId p i \<noteq> []"
  by (simp add: derivedId_def asc_def)

lemma parseLine_fresh:
  assumes "parseLine lc mk p bid outs i ln = Some (indent, t)"
  shows "parent t = None" "depth t = 0" "taskId t \<noteq> []" "taskFile t = p" "line t = i"
proof -
  from assms obtain st text0 where m: "matchTaskLine (trimStart ln) = Some (st, text0)"
    by (auto simp: parseLine_def Let_def split: option.splits)
  let ?text1 = "trim (removeAll tagAt text0)"
  let ?idM = "firstMatch (markAt (idMark mk)) ?text1"
  from assms m have t: "parent t = None" "depth t = 0" "taskFile t = p" "line t = i"
    "taskId t = (case ?idM of Some x \<Rightarrow> x | None \<Rightarrow> derivedId p i)"
    by (auto simp: parseLine_def Let_def)
  then show "parent t = None" "depth t = 0" "taskFile t = p" "line t = i" by simp_all
  show "taskId t \<noteq> []"
  proof (cases ?idM)
    case None
    with t show ?thesis by (simp add: derivedId_nonempty)
  next
    case (Some x)
    with t show ?thesis using firstMatch_markAt_nonempty[OF Some] by simp
  qed
qed

lemma scanInv_linkAndPush:
  assumes inv: "scanInv st" and t: "parent t = None" "depth t = 0" "taskId t \<noteq> []"
  shows "scanInv (linkAndPush indent t st)"
proof (cases "dropWhile (\<lambda>fr. indent \<le> snd fr) (stack st)")
  case Nil
  let ?new = "\<lparr> fieldsOf = t, childRefs = [] \<rparr>"
  have eq: "linkAndPush indent t st = st\<lparr> tasks := tasks st @ [?new], stack := [(length (tasks st), indent)] \<rparr>"
    using linkAndPush_root[OF Nil] .
  from inv have wf: "wfStore (tasks st)" and h: "hierarchyOk (tasks st)"
    and ids: "\<forall>j < length (tasks st). taskId (fieldsOf (tasks st ! j)) \<noteq> []"
    by (simp_all add: scanInv_def)
  have "wfStore (tasks st @ [?new])" using wf by (rule wfStore_root)
  moreover have "hierarchyOk (tasks st @ [?new])"
    using h wf t by (intro hierarchyOk_append) simp_all
  moreover have "\<forall>j < length (tasks st @ [?new]). taskId (fieldsOf ((tasks st @ [?new]) ! j)) \<noteq> []"
    using ids t(3) by (auto simp: nth_append)
  ultimately show ?thesis unfolding eq scanInv_def by simp
next
  case (Cons fr below)
  let ?p = "fst fr"
  let ?new = "\<lparr> fieldsOf = t\<lparr> parent := Some (taskId (fieldsOf (tasks st ! ?p))),
                         depth := depth (fieldsOf (tasks st ! ?p)) + 1 \<rparr>, childRefs = [] \<rparr>"
  have eq: "linkAndPush indent t st = st\<lparr> tasks := addChild (tasks st) ?p ?new,
                     stack := (length (tasks st), indent) # fr # below \<rparr>"
    using linkAndPush_child[OF Cons] by (simp add: addChild_def)
  from inv have wf: "wfStore (tasks st)" and h: "hierarchyOk (tasks st)"
    and ids: "\<forall>j < length (tasks st). taskId (fieldsOf (tasks st ! j)) \<noteq> []"
    and stk: "\<forall>fr \<in> set (stack st). fst fr < length (tasks st)"
    by (simp_all add: scanInv_def)
  have sub: "set (fr # below) \<subseteq> set (stack st)"
    using set_dropWhileD[of _ "\<lambda>fr. indent \<le> snd fr" "stack st"] Cons by auto
  with stk have below: "\<forall>fr' \<in> set (fr # below). fst fr' < length (tasks st)" by blast
  then have p: "?p < length (tasks st)" by simp
  have "wfStore (addChild (tasks st) ?p ?new)"
    using wfStore_child[OF wf p] by (simp add: addChild_def)
  moreover have "hierarchyOk (addChild (tasks st) ?p ?new)"
    using h wf p by (intro hierarchyOk_addChild) simp_all
  moreover have "\<forall>j < length (addChild (tasks st) ?p ?new). taskId (fieldsOf (addChild (tasks st) ?p ?new ! j)) \<noteq> []"
  proof (intro allI impI)
    fix j assume "j < length (addChild (tasks st) ?p ?new)"
    then consider "j < length (tasks st)" | "j = length (tasks st)" by fastforce
    then show "taskId (fieldsOf (addChild (tasks st) ?p ?new ! j)) \<noteq> []"
    proof cases
      case 1
      with ids show ?thesis by (simp add: addChild_fields)
    next
      case 2
      with t(3) show ?thesis by simp
    qed
  qed
  moreover have "\<forall>fr' \<in> set ((length (tasks st), indent) # fr # below). fst fr' < length (addChild (tasks st) ?p ?new)"
    using below by (auto simp: less_SucI)
  ultimately show ?thesis unfolding eq scanInv_def by simp
qed

lemma scanInv_lineStep: "scanInv st \<Longrightarrow> scanInv (lineStep lc mk lim f il st)"
proof -
  assume inv: "scanInv st"
  show ?thesis
  proof (cases "limitReached lim (tasks st)")
    case True
    with inv show ?thesis by (simp add: lineStep_def)
  next
    case False
    show ?thesis
    proof (cases "parseLine lc mk (path f) (blockIdAt (cache f) (fst il)) (outlinksOf (cache f)) (fst il) (snd il)")
      case None
      with inv False show ?thesis by (simp add: lineStep_def)
    next
      case (Some r)
      obtain indent t where r: "r = (indent, t)" by (cases r)
      from inv have "scanInv (st\<lparr> allTags := allTags st @ dedupFirst (allTags st) (tags t) \<rparr>)"
        by (simp add: scanInv_def)
      then have "scanInv (linkAndPush indent t (st\<lparr> allTags := allTags st @ dedupFirst (allTags st) (tags t) \<rparr>))"
        using parseLine_fresh(1-3)[OF Some[unfolded r]] by (intro scanInv_linkAndPush)
      with False Some r show ?thesis by (simp add: lineStep_def)
    qed
  qed
qed

lemma scanInv_fold: "scanInv st \<Longrightarrow> scanInv (fold (lineStep lc mk lim f) ils st)"
  by (induction ils arbitrary: st) (simp_all add: scanInv_lineStep)

lemma scanInv_scanFile: "scanInv st \<Longrightarrow> scanInv (scanFile lc mk lim f st)"
  unfolding scanFile_def by (rule scanInv_fold) (simp add: scanInv_def)

lemma scanInv_scanFiles: "scanInv st \<Longrightarrow> scanInv (scanFiles lc mk lim fs st)"
  by (induction fs arbitrary: st) (simp_all add: scanInv_scanFile)

lemma scanInv_scan: "scanInv (scan lc mk lim files)"
  unfolding scan_def by (rule scanInv_scanFiles) (simp add: scanInv_def wfStore_def hierarchyOk_def)

section \<open>The hierarchy built by the stack\<close>

lemma filter_eq_upt: "p < n \<Longrightarrow> filter (\<lambda>q. q = p) [0..<n] = [p]"
proof (induction n)
  case 0
  then show ?case by simp
next
  case (Suc n)
  show ?case
  proof (cases "p = n")
    case True
    have "filter (\<lambda>q. q = n) [0..<n] = []" by (simp add: filter_empty_conv)
    with True show ?thesis by simp
  next
    case False
    with Suc show ?thesis by simp
  qed
qed

lemma owners_root: "rootAt ts j \<Longrightarrow> owners ts j = []"
  by (simp add: owners_def rootAt_def filter_empty_conv)

lemma owners_child:
  assumes "childAt ts p j" "j < length ts"
  shows "owners ts j = [p]"
proof -
  from assms have p: "p < length ts" by (simp add: childAt_def)
  have "filter (\<lambda>q. j \<in> set (childRefs (ts ! q))) [0..<length ts] = filter (\<lambda>q. q = p) [0..<length ts]"
    using assms(1) by (intro filter_cong) (auto simp: childAt_def)
  with p show ?thesis by (simp add: owners_def filter_eq_upt)
qed

lemma childRel_acyclic:
  assumes "wfStore ts"
  shows "acyclic (childRel ts)"
proof -
  have "childRel ts \<subseteq> less_than"
    using assms by (auto simp: childRel_def dest: wfStore_refs_less)
  moreover have "acyclic less_than" by (simp add: wf_acyclic)
  ultimately show ?thesis by (rule acyclic_subset[rotated])
qed

text \<open>
  Claim C3. In the store that a scan leaves behind, for any markers, any limit and any
  vault: a task that no \<open>children\<close> array holds is a root, with \<open>parent = null\<close> and
  depth 0; every other task is held by exactly one task, created before it, whose id
  is its \<open>parent\<close> and whose depth is one less than its own; and the parent-to-child
  relation has no cycle, so that no task is its own ancestor.
\<close>

theorem hierarchy_tree:
  "let ts = tasks (scan lc mk lim files) in
     (\<forall>j < length ts.
        (case owners ts j of
           [] \<Rightarrow> parent (fieldsOf (ts ! j)) = None \<and> depth (fieldsOf (ts ! j)) = 0
         | [p] \<Rightarrow> p < j \<and> parent (fieldsOf (ts ! j)) = Some (taskId (fieldsOf (ts ! p)))
                    \<and> depth (fieldsOf (ts ! j)) = depth (fieldsOf (ts ! p)) + 1
         | _ \<Rightarrow> False))
     \<and> acyclic (childRel ts)"
proof -
  let ?ts = "tasks (scan lc mk lim files)"
  have inv: "scanInv (scan lc mk lim files)" by (rule scanInv_scan)
  then have wf: "wfStore ?ts" and h: "hierarchyOk ?ts" by (simp_all add: scanInv_def)
  have acy: "acyclic (childRel ?ts)" using wf by (rule childRel_acyclic)
  have all: "\<forall>j < length ?ts.
        (case owners ?ts j of
           [] \<Rightarrow> parent (fieldsOf (?ts ! j)) = None \<and> depth (fieldsOf (?ts ! j)) = 0
         | [p] \<Rightarrow> p < j \<and> parent (fieldsOf (?ts ! j)) = Some (taskId (fieldsOf (?ts ! p)))
                    \<and> depth (fieldsOf (?ts ! j)) = depth (fieldsOf (?ts ! p)) + 1
         | _ \<Rightarrow> False)"
  proof (intro allI impI)
    fix j assume j: "j < length ?ts"
    with h consider "rootAt ?ts j" | p where "childAt ?ts p j" unfolding hierarchyOk_def by blast
    then show "case owners ?ts j of
              [] \<Rightarrow> parent (fieldsOf (?ts ! j)) = None \<and> depth (fieldsOf (?ts ! j)) = 0
            | [p] \<Rightarrow> p < j \<and> parent (fieldsOf (?ts ! j)) = Some (taskId (fieldsOf (?ts ! p)))
                       \<and> depth (fieldsOf (?ts ! j)) = depth (fieldsOf (?ts ! p)) + 1
            | _ \<Rightarrow> False"
    proof cases
      case 1
      then show ?thesis by (simp add: owners_root) (simp add: rootAt_def)
    next
      case 2
      with j show ?thesis by (simp add: owners_child) (simp add: childAt_def)
    qed
  qed
  from all acy show ?thesis unfolding Let_def by (rule conjI)
qed

lemma demo_scan:
  "tasks (scan asIs canvasMarkers (Some 500) [demoFile]) =
     [\<lparr> fieldsOf = \<lparr> taskId = asc ''task-n.md-0'', taskText = asc ''a'', completed = False,
          parent = None, blockers = [], taskFile = asc ''n.md'', line = 0, depth = 0, tags = [],
          scheduled = None, start = None, outlinks = None, blockId = None \<rparr>, childRefs = [1] \<rparr>,
      \<lparr> fieldsOf = \<lparr> taskId = asc ''task-n.md-1'', taskText = asc ''b'', completed = True,
          parent = Some (asc ''task-n.md-0''), blockers = [], taskFile = asc ''n.md'', line = 1,
          depth = 1, tags = [], scheduled = None, start = None, outlinks = None,
          blockId = None \<rparr>, childRefs = [] \<rparr>,
      \<lparr> fieldsOf = \<lparr> taskId = asc ''task-n.md-2'', taskText = asc ''c'', completed = False,
          parent = None, blockers = [], taskFile = asc ''n.md'', line = 2, depth = 0, tags = [],
          scheduled = None, start = None, outlinks = None, blockId = None \<rparr>, childRefs = [] \<rparr>]"
  by (simp add: demoFile_def scan_eval)

theorem hierarchy_tree_witness:
  "let ts = tasks (scan asIs canvasMarkers (Some 500) [demoFile]) in
     length ts = 3 \<and> owners ts 0 = [] \<and> owners ts 1 = [0] \<and> owners ts 2 = [] \<and>
     parent (fieldsOf (ts ! 1)) = Some (taskId (fieldsOf (ts ! 0))) \<and>
     depth (fieldsOf (ts ! 1)) = depth (fieldsOf (ts ! 0)) + 1 \<and>
     depth (fieldsOf (ts ! 0)) = 0 \<and> depth (fieldsOf (ts ! 2)) = 0 \<and> (1, 1) \<notin> (childRel ts)\<^sup>+"
proof -
  let ?ts = "tasks (scan asIs canvasMarkers (Some 500) [demoFile])"
  have len: "length ?ts = 3" by (simp add: demo_scan)
  have o0: "owners ?ts 0 = []" and o1: "owners ?ts 1 = [0]" and o2: "owners ?ts 2 = []"
    by (simp_all add: owners_def demo_scan upt_rec)
  have both: "(\<forall>j < length ?ts.
        (case owners ?ts j of
           [] \<Rightarrow> parent (fieldsOf (?ts ! j)) = None \<and> depth (fieldsOf (?ts ! j)) = 0
         | [p] \<Rightarrow> p < j \<and> parent (fieldsOf (?ts ! j)) = Some (taskId (fieldsOf (?ts ! p)))
                    \<and> depth (fieldsOf (?ts ! j)) = depth (fieldsOf (?ts ! p)) + 1
         | _ \<Rightarrow> False))
     \<and> acyclic (childRel ?ts)"
    using hierarchy_tree[of asIs canvasMarkers "Some 500" "[demoFile]", unfolded Let_def] .
  from both have all: "\<forall>j < length ?ts.
        (case owners ?ts j of
           [] \<Rightarrow> parent (fieldsOf (?ts ! j)) = None \<and> depth (fieldsOf (?ts ! j)) = 0
         | [p] \<Rightarrow> p < j \<and> parent (fieldsOf (?ts ! j)) = Some (taskId (fieldsOf (?ts ! p)))
                    \<and> depth (fieldsOf (?ts ! j)) = depth (fieldsOf (?ts ! p)) + 1
         | _ \<Rightarrow> False)"
    by (rule conjunct1)
  from both have acy: "acyclic (childRel ?ts)" by (rule conjunct2)
  have "depth (fieldsOf (?ts ! 0)) = 0" using all[rule_format, of 0] len o0 by simp
  moreover have "depth (fieldsOf (?ts ! 2)) = 0" using all[rule_format, of 2] len o2 by simp
  moreover have "parent (fieldsOf (?ts ! 1)) = Some (taskId (fieldsOf (?ts ! 0))) \<and>
     depth (fieldsOf (?ts ! 1)) = depth (fieldsOf (?ts ! 0)) + 1"
    using all[rule_format, of 1] len o1 by simp
  moreover from acy have "(1, 1) \<notin> (childRel ?ts)\<^sup>+" by (simp add: acyclic_def)
  ultimately show ?thesis using len o0 o1 o2 by (simp only: Let_def) simp
qed

section \<open>The task limit\<close>

lemma linkAndPush_length: "length (tasks (linkAndPush indent t st)) = Suc (length (tasks st))"
  by (cases "dropWhile (\<lambda>fr. indent \<le> snd fr) (stack st)")
     (simp_all only: linkAndPush_root linkAndPush_child, simp_all)

lemma lineStep_bound:
  assumes "int (length (tasks st)) \<le> max 0 l"
  shows "int (length (tasks (lineStep lc mk (Some l) f il st))) \<le> max 0 l"
proof (cases "limitReached (Some l) (tasks st)")
  case True
  with assms show ?thesis by (simp add: lineStep_def)
next
  case False
  then have "int (length (tasks st)) < l" by (simp add: limitReached_def)
  then have "int (Suc (length (tasks st))) \<le> max 0 l" by simp
  with assms False show ?thesis
    by (auto simp: lineStep_def linkAndPush_length split: option.splits)
qed

lemma fold_bound:
  "int (length (tasks st)) \<le> max 0 l \<Longrightarrow>
   int (length (tasks (fold (lineStep lc mk (Some l) f) ils st))) \<le> max 0 l"
  by (induction ils arbitrary: st) (simp_all add: lineStep_bound)

lemma scanFiles_bound:
  "int (length (tasks st)) \<le> max 0 l \<Longrightarrow>
   int (length (tasks (scanFiles lc mk (Some l) fs st))) \<le> max 0 l"
  by (induction fs arbitrary: st) (simp_all add: scanFile_def fold_bound)

lemma lineStep_reached: "limitReached lim (tasks st) \<Longrightarrow> lineStep lc mk lim f il st = st"
  by (simp add: lineStep_def)

lemma fold_reached: "limitReached lim (tasks st) \<Longrightarrow> fold (lineStep lc mk lim f) ils st = st"
  by (induction ils) (simp_all add: lineStep_reached)

lemma scanFiles_reached: "limitReached lim (tasks st) \<Longrightarrow> scanFiles lc mk lim fs st = st"
  by (cases fs) simp_all

text \<open>
  Claim C7. The canvas view's scan never collects more tasks than the task limit (none
  at all when the limit is zero or negative). Once \<open>tasks.length\<close> has reached the
  limit, neither the remaining lines of the file being read nor the remaining files
  change the scan state: the callback returns before it parses the line, and the loop
  over the files breaks. The result is an ordinary task collection; the scan has no
  error or warning value.
\<close>

theorem parse_limit:
  "int (length (tasks (scanCanvas lc limit files))) \<le> max 0 limit \<and>
   (limitReached (Some limit) (tasks st) \<longrightarrow>
      fold (lineStep lc canvasMarkers (Some limit) f) ils st = st \<and>
      scanFiles lc canvasMarkers (Some limit) files st = st)"
proof (intro conjI impI)
  show "int (length (tasks (scanCanvas lc limit files))) \<le> max 0 limit"
    unfolding scanCanvas_def scan_def by (rule scanFiles_bound) simp
next
  assume "limitReached (Some limit) (tasks st)"
  then show "fold (lineStep lc canvasMarkers (Some limit) f) ils st = st" by (rule fold_reached)
next
  assume "limitReached (Some limit) (tasks st)"
  then show "scanFiles lc canvasMarkers (Some limit) files st = st" by (rule scanFiles_reached)
qed

lemma limited_scan:
  "scanCanvas asIs 2 [demoFile] =
     \<lparr> tasks =
         [\<lparr> fieldsOf = \<lparr> taskId = asc ''task-n.md-0'', taskText = asc ''a'', completed = False,
              parent = None, blockers = [], taskFile = asc ''n.md'', line = 0, depth = 0, tags = [],
              scheduled = None, start = None, outlinks = None, blockId = None \<rparr>, childRefs = [1] \<rparr>,
          \<lparr> fieldsOf = \<lparr> taskId = asc ''task-n.md-1'', taskText = asc ''b'', completed = True,
              parent = Some (asc ''task-n.md-0''), blockers = [], taskFile = asc ''n.md'', line = 1,
              depth = 1, tags = [], scheduled = None, start = None, outlinks = None,
              blockId = None \<rparr>, childRefs = [] \<rparr>],
       allTags = [], stack = [(1, 2), (0, 0)] \<rparr>"
  by (simp add: demoFile_def scan_eval)

theorem parse_limit_witness:
  "length (tasks (scan asIs canvasMarkers (Some 500) [demoFile])) = 3 \<and>
   length (tasks (scanCanvas asIs 2 [demoFile])) = 2 \<and>
   limitReached (Some 2) (tasks (scanCanvas asIs 2 [demoFile])) \<and>
   scanFiles asIs canvasMarkers (Some 2) [demoFile] (scanCanvas asIs 2 [demoFile]) = scanCanvas asIs 2 [demoFile]"
proof -
  have a: "length (tasks (scan asIs canvasMarkers (Some 500) [demoFile])) = 3" by (simp add: demo_scan)
  have b: "length (tasks (scanCanvas asIs 2 [demoFile])) = 2" by (simp add: limited_scan)
  have c: "limitReached (Some 2) (tasks (scanCanvas asIs 2 [demoFile]))"
    by (simp add: limited_scan limitReached_def)
  from parse_limit[of asIs 2 "[demoFile]" "scanCanvas asIs 2 [demoFile]"] a b c show ?thesis by blast
qed

section \<open>Marker extraction\<close>

text \<open>
  Claim C4. On the line \<open>- [ ] Buy milk #errand\<close> followed by the id marker and
  \<open>t1\<close>, the canvas view's extraction yields a task that is not completed, with the
  display text \<open>Buy milk\<close>, the single tag \<open>#errand\<close> and the id \<open>t1\<close>, whatever the
  file, the line index, the metadata cache and the case tables are.
\<close>

theorem extraction_buy_milk:
  "map_option (\<lambda>(ind, t). (completed t, taskText t, tags t, taskId t))
     (parseLine lc canvasMarkers p bid outs i
        (asc ''- [ ] Buy milk #errand '' @ [0xD83C, 0xDD94] @ asc '' t1''))
   = Some (False, asc ''Buy milk'', [asc ''#errand''], asc ''t1'')"
  by (simp add: parseLine_def canvasMarkers_def matchTaskLine_def tagAt_def markAt_def
      dateAt_def orElse_def startsWith_def toLowerCase_def isDatePayload_def asc_def
      trimStart_def trimEnd_def trim_def isSpace_def isLineTerminator_def isDigit_def Let_def)

section \<open>Task ids\<close>

lemma decimal_digits: "c \<in> set (decimal n) \<Longrightarrow> isDigit c"
proof (induction n arbitrary: c rule: decimal.induct)
  case (1 n)
  show ?case
  proof (cases "n < 10")
    case True
    with "1.prems" show ?thesis by (simp add: decimal.simps[of n] isDigit_def)
  next
    case False
    with "1.prems" have "c \<in> set (decimal (n div 10)) \<or> c = 0x30 + n mod 10"
      by (auto simp add: decimal.simps[of n])
    then show ?thesis
    proof
      assume "c \<in> set (decimal (n div 10))"
      with "1.IH" False show ?thesis by blast
    next
      assume "c = 0x30 + n mod 10"
      moreover have "n mod 10 < 10" by simp
      ultimately show ?thesis unfolding isDigit_def by linarith
    qed
  qed
qed

lemma decimal_value: "foldl (\<lambda>a c. 10 * a + (c - 0x30)) 0 (decimal n) = n"
proof (induction n rule: decimal.induct)
  case (1 n)
  show ?case
  proof (cases "n < 10")
    case True
    then show ?thesis by (simp add: decimal.simps[of n])
  next
    case False
    with "1.IH" have "foldl (\<lambda>a c. 10 * a + (c - 0x30)) 0 (decimal (n div 10)) = n div 10" by simp
    with False show ?thesis by (simp add: decimal.simps[of n])
  qed
qed

lemma decimal_inj: "decimal m = decimal n \<Longrightarrow> m = n"
proof -
  assume eq: "decimal m = decimal n"
  have "foldl (\<lambda>a c. 10 * a + (c - 0x30)) 0 (decimal m) = foldl (\<lambda>a c. 10 * a + (c - 0x30)) 0 (decimal n)"
    by (simp only: eq)
  then show "m = n" by (simp only: decimal_value)
qed

lemma split_at_last_sep:
  assumes "xs @ s # ds = ys @ s # es" "s \<notin> set ds" "s \<notin> set es"
  shows "xs = ys \<and> ds = es"
proof -
  from assms(1) have "rev (xs @ s # ds) = rev (ys @ s # es)" by simp
  then have eq: "rev ds @ s # rev xs = rev es @ s # rev ys" by simp
  have "takeWhile (\<lambda>x. x \<noteq> s) (rev ds @ s # rev xs) = rev ds"
    using assms(2) by (auto simp add: takeWhile_tail)
  moreover have "takeWhile (\<lambda>x. x \<noteq> s) (rev es @ s # rev ys) = rev es"
    using assms(3) by (auto simp add: takeWhile_tail)
  ultimately have "rev ds = rev es" using eq by simp
  then have "ds = es" by simp
  with assms(1) show ?thesis by simp
qed

lemma derivedId_inj: "derivedId p i = derivedId q j \<Longrightarrow> p = q \<and> i = j"
proof -
  assume "derivedId p i = derivedId q j"
  then have eq: "p @ 0x2D # decimal i = q @ 0x2D # decimal j"
    by (simp add: derivedId_def asc_def)
  have "\<And>n. (0x2D::nat) \<notin> set (decimal n)"
  proof
    fix n assume "(0x2D::nat) \<in> set (decimal n)"
    then have "isDigit 0x2D" by (rule decimal_digits)
    then show False by (simp add: isDigit_def)
  qed
  with eq have "p = q \<and> decimal i = decimal j" by (intro split_at_last_sep)
  then show ?thesis using decimal_inj by blast
qed

lemma linkAndPush_keys:
  "map taskKey (tasks (linkAndPush indent t st)) = map taskKey (tasks st) @ [(taskFile t, line t)]"
proof (cases "dropWhile (\<lambda>fr. indent \<le> snd fr) (stack st)")
  case Nil
  then show ?thesis by (simp add: linkAndPush_root taskKey_def)
next
  case (Cons fr below)
  have "map taskKey ((tasks st)[fst fr := (tasks st ! fst fr)\<lparr> childRefs := childRefs (tasks st ! fst fr) @ [length (tasks st)] \<rparr>])
        = map taskKey (tasks st)"
  proof (rule nth_equalityI)
    show "length (map taskKey ((tasks st)[fst fr := (tasks st ! fst fr)\<lparr> childRefs := childRefs (tasks st ! fst fr) @ [length (tasks st)] \<rparr>]))
          = length (map taskKey (tasks st))" by simp
  next
    fix i
    assume "i < length (map taskKey ((tasks st)[fst fr := (tasks st ! fst fr)\<lparr> childRefs := childRefs (tasks st ! fst fr) @ [length (tasks st)] \<rparr>]))"
    then have "i < length (tasks st)" by simp
    then show "map taskKey ((tasks st)[fst fr := (tasks st ! fst fr)\<lparr> childRefs := childRefs (tasks st ! fst fr) @ [length (tasks st)] \<rparr>]) ! i
          = map taskKey (tasks st) ! i"
      by (cases "i = fst fr") (simp_all add: taskKey_def)
  qed
  with Cons show ?thesis by (simp add: linkAndPush_child taskKey_def)
qed

lemma lineStep_keys:
  "\<exists>ks. map taskKey (tasks (lineStep lc mk lim f il st)) = map taskKey (tasks st) @ map (Pair (path f)) ks
        \<and> set ks \<subseteq> {fst il} \<and> distinct ks"
proof (cases "limitReached lim (tasks st)")
  case True
  then have "map taskKey (tasks (lineStep lc mk lim f il st)) = map taskKey (tasks st) @ map (Pair (path f)) []"
    by (simp add: lineStep_def)
  then show ?thesis by fastforce
next
  case False
  show ?thesis
  proof (cases "parseLine lc mk (path f) (blockIdAt (cache f) (fst il)) (outlinksOf (cache f)) (fst il) (snd il)")
    case None
    with False have "map taskKey (tasks (lineStep lc mk lim f il st)) = map taskKey (tasks st) @ map (Pair (path f)) []"
      by (simp add: lineStep_def)
    then show ?thesis by fastforce
  next
    case (Some r)
    obtain indent t where r: "r = (indent, t)" by (cases r)
    from parseLine_fresh(4,5)[OF Some[unfolded r]] have "taskFile t = path f" "line t = fst il" .
    with False Some r have "map taskKey (tasks (lineStep lc mk lim f il st))
        = map taskKey (tasks st) @ map (Pair (path f)) [fst il]"
      by (simp add: lineStep_def linkAndPush_keys)
    moreover have "set [fst il] \<subseteq> {fst il} \<and> distinct [fst il]" by simp
    ultimately show ?thesis by blast
  qed
qed

lemma fold_keys:
  "\<exists>ks. map taskKey (tasks (fold (lineStep lc mk lim f) (enumerate k lns) st))
          = map taskKey (tasks st) @ map (Pair (path f)) ks
        \<and> (\<forall>i \<in> set ks. k \<le> i) \<and> distinct ks"
proof (induction lns arbitrary: k st)
  case Nil
  have "map taskKey (tasks (fold (lineStep lc mk lim f) (enumerate k []) st))
          = map taskKey (tasks st) @ map (Pair (path f)) []" by simp
  then show ?case by fastforce
next
  case (Cons ln lns)
  let ?st1 = "lineStep lc mk lim f (k, ln) st"
  from lineStep_keys[of lc mk lim f "(k, ln)" st] obtain ks1 where
    k1: "map taskKey (tasks ?st1) = map taskKey (tasks st) @ map (Pair (path f)) ks1"
    and s1: "set ks1 \<subseteq> {k}" and d1: "distinct ks1" by auto
  from Cons.IH[of "Suc k" ?st1] obtain ks2 where
    k2: "map taskKey (tasks (fold (lineStep lc mk lim f) (enumerate (Suc k) lns) ?st1))
          = map taskKey (tasks ?st1) @ map (Pair (path f)) ks2"
    and s2: "\<forall>i \<in> set ks2. Suc k \<le> i" and d2: "distinct ks2" by auto
  have "map taskKey (tasks (fold (lineStep lc mk lim f) (enumerate k (ln # lns)) st))
          = map taskKey (tasks st) @ map (Pair (path f)) (ks1 @ ks2)"
    using k1 k2 by simp
  moreover have "\<forall>i \<in> set (ks1 @ ks2). k \<le> i" using s1 s2 by auto
  moreover have "set ks1 \<inter> set ks2 = {}"
  proof (rule ccontr)
    assume "set ks1 \<inter> set ks2 \<noteq> {}"
    then obtain x where "x \<in> set ks1" "x \<in> set ks2" by blast
    with s1 s2 have "x = k" "Suc k \<le> x" by auto
    then show False by simp
  qed
  with d1 d2 have "distinct (ks1 @ ks2)" by simp
  ultimately show ?case by blast
qed

lemma scanFile_keys:
  "\<exists>ks. map taskKey (tasks (scanFile lc mk lim f st)) = map taskKey (tasks st) @ map (Pair (path f)) ks
        \<and> distinct ks"
  using fold_keys[of lc mk lim f 0 "splitLines (content f)" "st\<lparr> stack := [] \<rparr>"]
  unfolding scanFile_def by auto

lemma disjoint_step: "N \<subseteq> insert p A \<Longrightarrow> A \<inter> B = {} \<Longrightarrow> p \<notin> B \<Longrightarrow> N \<inter> B = {}"
  by blast

lemma scanFiles_keys:
  "distinct (map path fs) \<Longrightarrow> distinct (map taskKey (tasks st)) \<Longrightarrow>
   fst ` set (map taskKey (tasks st)) \<inter> set (map path fs) = {} \<Longrightarrow>
   distinct (map taskKey (tasks (scanFiles lc mk lim fs st)))"
proof (induction fs arbitrary: st)
  case Nil
  then show ?case by simp
next
  case (Cons f fs)
  show ?case
  proof (cases "limitReached lim (tasks st)")
    case True
    with Cons.prems show ?thesis by simp
  next
    case False
    from scanFile_keys[of lc mk lim f st] obtain ks where
      ks: "map taskKey (tasks (scanFile lc mk lim f st)) = map taskKey (tasks st) @ map (Pair (path f)) ks"
      and dk: "distinct ks" by auto
    from Cons.prems have pf: "path f \<notin> fst ` set (map taskKey (tasks st))" "path f \<notin> set (map path fs)"
      and dfs: "distinct (map path fs)" by auto
    have "distinct (map (Pair (path f)) ks)"
      using dk by (simp add: distinct_map inj_on_def)
    moreover have "set (map taskKey (tasks st)) \<inter> set (map (Pair (path f)) ks) = {}"
    proof (rule ccontr)
      assume "set (map taskKey (tasks st)) \<inter> set (map (Pair (path f)) ks) \<noteq> {}"
      then obtain x where x: "x \<in> set (map taskKey (tasks st))" "x \<in> set (map (Pair (path f)) ks)"
        by blast
      from x(2) have "fst x = path f" by auto
      with x(1) have "path f \<in> fst ` set (map taskKey (tasks st))" by (metis imageI)
      with pf(1) show False by blast
    qed
    ultimately have d: "distinct (map taskKey (tasks (scanFile lc mk lim f st)))"
      unfolding ks using Cons.prems(2) by simp
    have "fst ` set (map taskKey (tasks (scanFile lc mk lim f st))) \<subseteq>
            insert (path f) (fst ` set (map taskKey (tasks st)))"
      unfolding ks by auto
    moreover from Cons.prems(3) have "fst ` set (map taskKey (tasks st)) \<inter> set (map path fs) = {}"
      by auto
    ultimately have "fst ` set (map taskKey (tasks (scanFile lc mk lim f st))) \<inter> set (map path fs) = {}"
      using pf(2) by (rule disjoint_step)
    with Cons.IH[OF dfs d] False show ?thesis by simp
  qed
qed

lemma scan_keys: "distinct (map path files) \<Longrightarrow> distinct (map taskKey (tasks (scan lc mk lim files)))"
  unfolding scan_def by (rule scanFiles_keys) simp_all

text \<open>
  Claim C5, as amended. The id of a task is the payload of its id marker when it has
  one, and otherwise \<open>task-<path>-<line>\<close>. In a scan of files with pairwise different
  paths, no two tasks whose id is the derived one share it. The payload of an id
  marker is taken as it is written, and nothing keeps two markers from naming the same
  id.
\<close>

theorem derived_ids_unique:
  assumes "distinct (map path files)"
  shows "distinct (map (\<lambda>ob. taskId (fieldsOf ob)) (filter hasDerivedId (tasks (scan lc mk lim files))))"
proof -
  let ?ts = "tasks (scan lc mk lim files)"
  have "map (\<lambda>ob. taskId (fieldsOf ob)) (filter hasDerivedId ?ts)
        = map (\<lambda>k. derivedId (fst k) (snd k)) (map taskKey (filter hasDerivedId ?ts))"
    by (simp add: hasDerivedId_def taskKey_def cong: map_cong)
  moreover have "distinct (map taskKey (filter hasDerivedId ?ts))"
    using scan_keys[OF assms] by (rule distinct_map_filter)
  moreover have "inj (\<lambda>k. derivedId (fst k) (snd k))"
    by (rule injI) (auto dest: derivedId_inj simp: prod_eq_iff)
  ultimately show ?thesis
    by (simp only: distinct_map) (auto intro: inj_on_subset[OF _ subset_UNIV] simp: distinct_map)
qed

theorem derived_ids_unique_witness:
  "distinct (map path [demoFile]) \<and>
   length (filter hasDerivedId (tasks (scan asIs canvasMarkers (Some 500) [demoFile]))) = 3 \<and>
   distinct (map (\<lambda>ob. taskId (fieldsOf ob))
      (filter hasDerivedId (tasks (scan asIs canvasMarkers (Some 500) [demoFile]))))"
proof -
  have d: "distinct (map path [demoFile])" by simp
  have l: "length (filter hasDerivedId (tasks (scan asIs canvasMarkers (Some 500) [demoFile]))) = 3"
    unfolding demo_scan by (simp add: hasDerivedId_def derivedId_def decimal.simps asc_def)
  from derived_ids_unique[OF d, of asIs canvasMarkers "Some 500"] d l show ?thesis by blast
qed

lemma sameId_scan:
  "map (\<lambda>ob. taskId (fieldsOf ob)) (tasks (scanCanvas asIs 500 [sameIdFile])) = [asc ''t1'', asc ''t1'']"
  by (simp add: sameIdFile_def scan_eval)

text \<open>Two lines of one note with the same id marker give two tasks with the same id.\<close>

theorem explicit_ids_repeat:
  "\<not> distinct (map (\<lambda>ob. taskId (fieldsOf ob)) (tasks (scanCanvas asIs 500 [sameIdFile])))"
  unfolding sameId_scan by simp

section \<open>The values of a well-formed store\<close>

lemma snapshotFrom_length [simp]: "length (snapshotFrom k obs) = length obs"
  by (induction obs arbitrary: k) (simp_all add: Let_def)

lemma snapshotFrom_nth:
  "j < length obs \<Longrightarrow> (\<forall>c \<in> set (childRefs (obs ! j)). k + j < c) \<Longrightarrow>
   snapshotFrom k obs ! j =
     Task (fieldsOf (obs ! j)) (map (\<lambda>c. snapshotFrom k obs ! (c - k)) (childRefs (obs ! j)))"
proof (induction obs arbitrary: k j)
  case Nil
  then show ?case by simp
next
  case (Cons ob obs)
  let ?later = "snapshotFrom (Suc k) obs"
  have shift: "\<And>c. k < c \<Longrightarrow> ?later ! (c - Suc k) = snapshotFrom k (ob # obs) ! (c - k)"
  proof -
    fix c assume "k < c"
    then have "c - k = Suc (c - Suc k)" by simp
    then show "?later ! (c - Suc k) = snapshotFrom k (ob # obs) ! (c - k)" by (simp add: Let_def)
  qed
  show ?case
  proof (cases j)
    case 0
    with Cons.prems have "\<forall>c \<in> set (childRefs ob). k < c" by simp
    then have "map (\<lambda>c. ?later ! (c - Suc k)) (childRefs ob)
             = map (\<lambda>c. snapshotFrom k (ob # obs) ! (c - k)) (childRefs ob)"
    proof (intro map_cong refl)
      fix c assume "c \<in> set (childRefs ob)"
      with \<open>\<forall>c \<in> set (childRefs ob). k < c\<close> have "k < c" by auto
      then show "?later ! (c - Suc k) = snapshotFrom k (ob # obs) ! (c - k)" by (rule shift)
    qed
    with 0 show ?thesis by (simp add: Let_def)
  next
    case (Suc j')
    with Cons.prems have j': "j' < length obs" and refs: "\<forall>c \<in> set (childRefs (obs ! j')). Suc k + j' < c"
      by simp_all
    have "?later ! j' = Task (fieldsOf (obs ! j')) (map (\<lambda>c. ?later ! (c - Suc k)) (childRefs (obs ! j')))"
      using Cons.IH[OF j' refs] .
    moreover have "map (\<lambda>c. ?later ! (c - Suc k)) (childRefs (obs ! j'))
             = map (\<lambda>c. snapshotFrom k (ob # obs) ! (c - k)) (childRefs (obs ! j'))"
    proof (intro map_cong refl)
      fix c assume "c \<in> set (childRefs (obs ! j'))"
      with refs have "k < c" by auto
      then show "?later ! (c - Suc k) = snapshotFrom k (ob # obs) ! (c - k)" by (rule shift)
    qed
    ultimately show ?thesis using Suc by (simp add: Let_def)
  qed
qed

lemma snapshot_length [simp]: "length (snapshot ts) = length ts"
  by (simp add: snapshot_def)

lemma snapshot_nth:
  assumes "wfStore ts" "j < length ts"
  shows "snapshot ts ! j = Task (fieldsOf (ts ! j)) (map (\<lambda>c. snapshot ts ! c) (childRefs (ts ! j)))"
proof -
  have "\<forall>c \<in> set (childRefs (ts ! j)). 0 + j < c"
  proof
    fix c assume "c \<in> set (childRefs (ts ! j))"
    with assms have "j < c \<and> c < length ts" by (rule wfStore_refs_less)
    then show "0 + j < c" by simp
  qed
  with assms(2) have "snapshotFrom 0 ts ! j =
     Task (fieldsOf (ts ! j)) (map (\<lambda>c. snapshotFrom 0 ts ! (c - 0)) (childRefs (ts ! j)))"
    by (rule snapshotFrom_nth)
  then show ?thesis unfolding snapshot_def by (simp only: diff_zero)
qed

lemma preorder_self: "t \<in> set (preorder t)"
  by (cases t) simp

lemma preorder_child: "u \<in> set (preorder r) \<Longrightarrow> c \<in> set (children u) \<Longrightarrow> c \<in> set (preorder r)"
proof (induction r rule: preorder.induct)
  case (1 t cs)
  from "1.prems"(1) consider "u = Task t cs" | r' where "r' \<in> set cs" "u \<in> set (preorder r')"
    by auto
  then show ?case
  proof cases
    case 1
    with "1.prems"(2) have "c \<in> set cs" by simp
    then show ?thesis using preorder_self by auto
  next
    case 2
    with "1.IH" "1.prems"(2) have "c \<in> set (preorder r')" by blast
    with 2 show ?thesis by auto
  qed
qed

lemma scan_reachable:
  assumes wf: "wfStore ts" and h: "hierarchyOk ts" and j: "j < length ts"
  shows "snapshot ts ! j \<in> set (concat (map preorder (roots (snapshot ts))))"
  using j
proof (induction j rule: less_induct)
  case (less j)
  from h less.prems consider "rootAt ts j" | p where "childAt ts p j"
    unfolding hierarchyOk_def by blast
  then show ?case
  proof cases
    case 1
    have "props (snapshot ts ! j) = fieldsOf (ts ! j)"
      using snapshot_nth[OF wf less.prems] by simp
    with 1 have "\<not> truthy (parent (props (snapshot ts ! j)))"
      by (simp add: rootAt_def truthy_def)
    moreover have "snapshot ts ! j \<in> set (snapshot ts)" using less.prems by simp
    ultimately have "snapshot ts ! j \<in> set (roots (snapshot ts))" by (simp add: roots_def)
    then show ?thesis using preorder_self by auto
  next
    case 2
    then have p: "p < j" "p < length ts" using less.prems by (auto simp: childAt_def)
    from 2 p have "j \<in> set (childRefs (ts ! p))" by (simp add: childAt_def)
    then have "snapshot ts ! j \<in> set (children (snapshot ts ! p))"
      using snapshot_nth[OF wf p(2)] by simp
    moreover from less.IH[OF p] obtain r where "r \<in> set (roots (snapshot ts))" "snapshot ts ! p \<in> set (preorder r)"
      by auto
    ultimately show ?thesis using preorder_child by auto
  qed
qed

section \<open>The visibility filter of the SVG view\<close>

lemma create_nodes:
  "nodes (create v t) = map (toNode svgMarkers) (filter (\<lambda>u. specVisible v (props u)) (preorder t))"
proof (induction v t rule: create.induct)
  case (1 v t cs)
  have "concat (map (\<lambda>c. nodes (create v c)) cs)
        = concat (map (\<lambda>c. map (toNode svgMarkers) (filter (\<lambda>u. specVisible v (props u)) (preorder c))) cs)"
    using 1 by (simp cong: map_cong)
  then show ?case
    by (auto simp: Let_def specVisible_def list_ex_iff map_concat filter_concat comp_def)
qed

lemma svg_nodes:
  "nodes (data (processTasksSvg v ts)) =
     map (toNode svgMarkers) (filter (\<lambda>u. specVisible v (props u)) (concat (map preorder (roots ts))))"
  by (simp add: processTasksSvg_def Let_def roots_def create_nodes map_concat filter_concat comp_def)

lemma specVisible_toNode: "specVisible v (props (toNode mk t)) = specVisible v (props t)"
  by (simp add: toNode_def specVisible_def)

lemma toNode_id [simp]: "taskId (props (toNode mk t)) = taskId (props t)"
  by (simp add: toNode_def)

text \<open>
  Claim C2. For every vault, every toggle state and every task of the scan, the task's
  node is among the nodes that the SVG view emits if and only if (show completed or
  the task is not completed) and (show blocked or the task has no blockers) and the
  tag predicate holds.
\<close>

theorem policyA_visibility:
  assumes "j < length (tasks (scanSvg lc files))"
  shows "toNode svgMarkers (snapshot (tasks (scanSvg lc files)) ! j) \<in> set (nodes (data (collectTasksSvg lc v files)))
         \<longleftrightarrow> specVisible v (fieldsOf (tasks (scanSvg lc files) ! j))"
proof -
  let ?ts = "tasks (scanSvg lc files)"
  let ?t = "snapshot ?ts ! j"
  have inv: "scanInv (scanSvg lc files)" unfolding scanSvg_def by (rule scanInv_scan)
  then have wf: "wfStore ?ts" and h: "hierarchyOk ?ts" by (simp_all add: scanInv_def)
  have props: "props ?t = fieldsOf (?ts ! j)" using snapshot_nth[OF wf assms] by simp
  have reach: "?t \<in> set (concat (map preorder (roots (snapshot ?ts))))"
    using scan_reachable[OF wf h assms] .
  have nodes: "set (nodes (data (collectTasksSvg lc v files)))
     = toNode svgMarkers ` {u \<in> set (concat (map preorder (roots (snapshot ?ts)))). specVisible v (props u)}"
    by (simp add: collectTasksSvg_def svg_nodes)
  show ?thesis
  proof
    assume "toNode svgMarkers ?t \<in> set (nodes (data (collectTasksSvg lc v files)))"
    then obtain u where "specVisible v (props u)" "toNode svgMarkers u = toNode svgMarkers ?t"
      unfolding nodes by auto
    then have "specVisible v (props ?t)"
      using specVisible_toNode[of v svgMarkers u] specVisible_toNode[of v svgMarkers ?t] by simp
    with props show "specVisible v (fieldsOf (?ts ! j))" by simp
  next
    assume "specVisible v (fieldsOf (?ts ! j))"
    with props reach show "toNode svgMarkers ?t \<in> set (nodes (data (collectTasksSvg lc v files)))"
      unfolding nodes by auto
  qed
qed

declare create.simps [simp del]

lemma tagged_scan:
  "snapshot (tasks (scanSvg asIs [taggedChildFile])) =
     [Task \<lparr> taskId = asc ''task-n.md-0'', taskText = asc ''p'', completed = False, parent = None,
             blockers = [], taskFile = asc ''n.md'', line = 0, depth = 0, tags = [],
             scheduled = None, start = None, outlinks = None, blockId = None \<rparr>
        [Task \<lparr> taskId = asc ''task-n.md-1'', taskText = asc ''c'', completed = False,
                parent = Some (asc ''task-n.md-0''), blockers = [], taskFile = asc ''n.md'',
                line = 1, depth = 1, tags = [asc ''#a''], scheduled = None, start = None,
                outlinks = None, blockId = None \<rparr> []],
      Task \<lparr> taskId = asc ''task-n.md-1'', taskText = asc ''c'', completed = False,
                parent = Some (asc ''task-n.md-0''), blockers = [], taskFile = asc ''n.md'',
                line = 1, depth = 1, tags = [asc ''#a''], scheduled = None, start = None,
                outlinks = None, blockId = None \<rparr> []]"
  by (simp add: taggedChildFile_def scan_eval)

lemma tagged_graph:
  "data (collectTasksSvg asIs tagFilterView [taggedChildFile]) =
     \<lparr> nodes = [Task \<lparr> taskId = asc ''task-n.md-1'', taskText = asc ''c'', completed = False,
                parent = Some (asc ''task-n.md-0''), blockers = [], taskFile = asc ''n.md'',
                line = 1, depth = 1, tags = [asc ''#a''], scheduled = None, start = None,
                outlinks = None, blockId = None \<rparr> []],
       links = [\<lparr> source = asc ''task-n.md-0'', target = asc ''task-n.md-1'', linkType = Hierarchy \<rparr>] \<rparr>"
  unfolding collectTasksSvg_def tagged_scan
  by (simp add: processTasksSvg_def create.simps tagFilterView_def truthy_def toNode_def Let_def asc_def)

lemma tagged_store_length: "length (tasks (scanSvg asIs [taggedChildFile])) = 2"
  using arg_cong[OF tagged_scan, of length] by simp

theorem policyA_visibility_witness:
  "1 < length (tasks (scanSvg asIs [taggedChildFile])) \<and>
   specVisible tagFilterView (fieldsOf (tasks (scanSvg asIs [taggedChildFile]) ! 1)) \<and>
   toNode svgMarkers (snapshot (tasks (scanSvg asIs [taggedChildFile])) ! 1)
     \<in> set (nodes (data (collectTasksSvg asIs tagFilterView [taggedChildFile]))) \<and>
   0 < length (tasks (scanSvg asIs [taggedChildFile])) \<and>
   \<not> specVisible tagFilterView (fieldsOf (tasks (scanSvg asIs [taggedChildFile]) ! 0)) \<and>
   toNode svgMarkers (snapshot (tasks (scanSvg asIs [taggedChildFile])) ! 0)
     \<notin> set (nodes (data (collectTasksSvg asIs tagFilterView [taggedChildFile])))"
proof -
  have l1: "1 < length (tasks (scanSvg asIs [taggedChildFile]))" and l0: "0 < length (tasks (scanSvg asIs [taggedChildFile]))"
    by (simp_all add: tagged_store_length)
  have n1: "toNode svgMarkers (snapshot (tasks (scanSvg asIs [taggedChildFile])) ! 1)
     \<in> set (nodes (data (collectTasksSvg asIs tagFilterView [taggedChildFile])))"
    unfolding tagged_graph tagged_scan by (simp add: toNode_def)
  have n0: "toNode svgMarkers (snapshot (tasks (scanSvg asIs [taggedChildFile])) ! 0)
     \<notin> set (nodes (data (collectTasksSvg asIs tagFilterView [taggedChildFile])))"
    unfolding tagged_graph tagged_scan by (simp add: toNode_def asc_def)
  from policyA_visibility[OF l1, of tagFilterView] policyA_visibility[OF l0, of tagFilterView] n1 n0 l1 l0
  show ?thesis by blast
qed

section \<open>Edges and their end points\<close>

lemma canvas_intact: "referentiallyIntact (data (processTasks v ts))"
  by (auto simp: referentiallyIntact_def nodeIds_def processTasks_def Let_def list_all_iff)

lemma validLinks_intact:
  "list_all (\<lambda>l. source l \<in> nodeIds g \<and> target l \<in> nodeIds g) (validLinks g)"
  unfolding validLinks_def nodeIds_def list_all_iff list_ex_iff
  by (force simp: image_iff)

lemma preorder_sub: "c \<in> set cs \<Longrightarrow> set (preorder c) \<subseteq> set (preorder (Task t cs))"
  by auto

lemma create_links_intact:
  "selectedTags v = {} \<Longrightarrow> \<not> showWithoutTags v \<Longrightarrow> l \<in> set (links (create v t)) \<Longrightarrow>
         source l \<in> (\<lambda>n. taskId (props n)) ` set (nodes (create v t)) \<and>
         target l \<in> (\<lambda>n. taskId (props n)) ` set (nodes (create v t))"
proof (induction v t arbitrary: l rule: create.induct)
  case (1 v t cs)
  note off = "1.prems"(1,2)
  let ?ids = "\<lambda>u. (\<lambda>n. taskId (props n)) ` set (nodes (create v u))"
  have sub: "\<And>c. c \<in> set cs \<Longrightarrow> ?ids c \<subseteq> ?ids (Task t cs)"
    by (auto simp: Let_def create.simps)
  from "1.prems"(3) obtain c where c: "c \<in> set cs"
    and l: "(l = \<lparr> source = taskId t, target = taskId (props c), linkType = Hierarchy \<rparr>
              \<and> (showCompleted v \<or> (\<not> completed t \<and> \<not> completed (props c)))
              \<and> (showBlocked v \<or> (blockers t = [] \<and> blockers (props c) = [])))
            \<or> l \<in> set (links (create v c))"
    by (auto simp: Let_def create.simps split: if_splits)
  from l show ?case
  proof
    assume a: "l = \<lparr> source = taskId t, target = taskId (props c), linkType = Hierarchy \<rparr>
              \<and> (showCompleted v \<or> (\<not> completed t \<and> \<not> completed (props c)))
              \<and> (showBlocked v \<or> (blockers t = [] \<and> blockers (props c) = []))"
    with off have vt: "specVisible v t" and vc: "specVisible v (props c)"
      by (auto simp: specVisible_def)
    from vt have "toNode svgMarkers (Task t cs) \<in> set (nodes (create v (Task t cs)))"
      by (simp add: create_nodes del: create.simps)
    then have "taskId t \<in> ?ids (Task t cs)"
      by (rule rev_image_eqI) simp
    moreover from vc have "toNode svgMarkers c \<in> set (nodes (create v c))"
      by (simp add: create_nodes preorder_self del: create.simps)
    then have "taskId (props c) \<in> ?ids c"
      by (rule rev_image_eqI) simp
    with sub[OF c] have "taskId (props c) \<in> ?ids (Task t cs)" by blast
    ultimately show ?thesis using a by simp
  next
    assume "l \<in> set (links (create v c))"
    with "1.IH" c off have "source l \<in> ?ids c \<and> target l \<in> ?ids c" by blast
    with sub[OF c] show ?thesis by blast
  qed
qed

lemma svg_intact_no_tag_filter:
  assumes "selectedTags v = {}" "\<not> showWithoutTags v"
  shows "referentiallyIntact (data (processTasksSvg v ts))"
proof -
  let ?rs = "filter (\<lambda>t. \<not> truthy (parent (props t))) ts"
  let ?ns = "concat (map (\<lambda>t. nodes (create v t)) ?rs)"
  have h: "\<And>l r. r \<in> set ?rs \<Longrightarrow> l \<in> set (links (create v r)) \<Longrightarrow>
      source l \<in> (\<lambda>n. taskId (props n)) ` set ?ns \<and> target l \<in> (\<lambda>n. taskId (props n)) ` set ?ns"
  proof -
    fix l r assume r: "r \<in> set ?rs" and "l \<in> set (links (create v r))"
    with assms have "source l \<in> (\<lambda>n. taskId (props n)) ` set (nodes (create v r)) \<and>
         target l \<in> (\<lambda>n. taskId (props n)) ` set (nodes (create v r))"
      by (intro create_links_intact)
    moreover from r have "set (nodes (create v r)) \<subseteq> set ?ns" by auto
    ultimately show "source l \<in> (\<lambda>n. taskId (props n)) ` set ?ns \<and> target l \<in> (\<lambda>n. taskId (props n)) ` set ?ns"
      by blast
  qed
  show ?thesis
    unfolding referentiallyIntact_def nodeIds_def processTasksSvg_def Let_def list_all_iff
    using h by (auto split: if_splits)
qed

text \<open>
  Claim C1, as amended. Every edge emitted by the canvas view's \<open>processTasks\<close> has
  its source id and its target id among the ids of the emitted nodes. For the SVG
  view's \<open>processTasks\<close> the same holds whenever no tag filter is active (no tag
  selected and ``without tags'' off), and under every toggle state it holds for the
  edges that pass \<open>validLinks\<close>, the filter through which \<open>renderGraph\<close> hands the
  edges to the simulation and to the drawing.
\<close>

theorem referential_integrity:
  "referentiallyIntact (data (processTasks v ts)) \<and>
   (selectedTags v = {} \<and> \<not> showWithoutTags v \<longrightarrow> referentiallyIntact (data (processTasksSvg v ts))) \<and>
   list_all (\<lambda>l. source l \<in> nodeIds (data (processTasksSvg v ts)) \<and>
                  target l \<in> nodeIds (data (processTasksSvg v ts)))
     (validLinks (data (processTasksSvg v ts)))"
  using canvas_intact svg_intact_no_tag_filter validLinks_intact by blast

lemma plain_links:
  "links (data (collectTasksSvg asIs plainView [taggedChildFile])) =
     [\<lparr> source = asc ''task-n.md-0'', target = asc ''task-n.md-1'', linkType = Hierarchy \<rparr>]"
  unfolding collectTasksSvg_def tagged_scan
  by (simp add: processTasksSvg_def create.simps plainView_def truthy_def toNode_def Let_def asc_def)

theorem referential_integrity_witness:
  "selectedTags plainView = {} \<and> \<not> showWithoutTags plainView \<and>
   links (data (processTasksSvg plainView (snapshot (tasks (scanSvg asIs [taggedChildFile]))))) \<noteq> [] \<and>
   referentiallyIntact (data (processTasksSvg plainView (snapshot (tasks (scanSvg asIs [taggedChildFile])))))"
proof -
  have off: "selectedTags plainView = {} \<and> \<not> showWithoutTags plainView"
    by (simp add: plainView_def)
  have "links (data (processTasksSvg plainView (snapshot (tasks (scanSvg asIs [taggedChildFile]))))) \<noteq> []"
    using plain_links by (simp add: collectTasksSvg_def)
  with off referential_integrity[of plainView "snapshot (tasks (scanSvg asIs [taggedChildFile]))"]
  show ?thesis by blast
qed

text \<open>
  With a tag selected, the SVG view's \<open>processTasks\<close> emits the hierarchy edge from
  an untagged parent to its tagged child although the parent is not a node: \<open>create\<close>
  gates the edge on the completed and blocked toggles only. The emitted graph is not
  referentially intact.
\<close>

theorem policyA_edge_without_node:
  "\<not> referentiallyIntact (data (collectTasksSvg asIs tagFilterView [taggedChildFile]))"
  unfolding tagged_graph by (simp add: referentiallyIntact_def nodeIds_def asc_def)

section \<open>Blockers that name no task\<close>

lemma create_sources: "l \<in> set (links (create v t)) \<Longrightarrow> source l \<in> set (collect t)"
proof (induction v t arbitrary: l rule: create.induct)
  case (1 v t cs)
  from "1.prems" obtain c where c: "c \<in> set cs"
    and l: "source l = taskId t \<or> l \<in> set (links (create v c))"
    by (auto simp: Let_def create.simps split: if_splits)
  from l show ?case
  proof
    assume "source l = taskId t"
    then show ?thesis by simp
  next
    assume "l \<in> set (links (create v c))"
    with "1.IH" c have "source l \<in> set (collect c)" by blast
    with c show ?thesis by auto
  qed
qed

lemma collect_head: "taskId (props t) \<in> set (collect t)"
  by (cases t) simp

lemma svg_sources:
  assumes "l \<in> set (links (data (processTasksSvg v ts)))"
  shows "source l \<in> set (concat (map collect ts))"
proof -
  let ?rs = "filter (\<lambda>t. \<not> truthy (parent (props t))) ts"
  from assms consider r where "r \<in> set ?rs" "l \<in> set (links (create v r))"
    | "source l \<in> set (concat (map collect ?rs))"
    by (auto simp: processTasksSvg_def Let_def split: if_splits) blast+
  then show ?thesis
  proof cases
    case 1
    then have "source l \<in> set (collect r)" using create_sources by blast
    with 1(1) show ?thesis by auto
  next
    case 2
    then show ?thesis by auto
  qed
qed

lemma canvas_sources:
  assumes "l \<in> set (links (data (processTasks v ts)))"
  shows "source l \<in> (\<lambda>t. taskId (props t)) ` set ts"
proof -
  have "nodeIds (data (processTasks v ts)) \<subseteq> (\<lambda>t. taskId (props t)) ` set ts"
    by (auto simp: nodeIds_def processTasks_def Let_def)
  moreover from assms have "source l \<in> nodeIds (data (processTasks v ts))"
    using canvas_intact[of v ts] unfolding referentiallyIntact_def list_all_iff by blast
  ultimately show ?thesis by blast
qed

text \<open>
  Claim C6. Let \<open>b\<close> be an id that no task of the collection has: for the canvas view
  none of the tasks handed to \<open>processTasks\<close>, for the SVG view none of them and none
  of the tasks below them. Then the view emits no edge whose source is \<open>b\<close>, whichever
  task names \<open>b\<close> as a blocker. Scanning and assembling are total functions with no
  error value: there is nothing for a dangling reference to raise, and the reference
  itself stays in the \<open>blockers\<close> of its task.
\<close>

theorem dangling:
  "(b \<notin> (\<lambda>t. taskId (props t)) ` set ts \<longrightarrow>
      b \<notin> source ` set (links (data (processTasks v ts)))) \<and>
   (b \<notin> set (concat (map collect ts)) \<longrightarrow>
      b \<notin> source ` set (links (data (processTasksSvg v ts))))"
  using canvas_sources svg_sources by blast

lemma ghost_scan:
  "ghostTasks =
     [Task \<lparr> taskId = asc ''task-g.md-0'', taskText = asc ''a'', completed = False, parent = None,
             blockers = [asc ''ghost''], taskFile = asc ''g.md'', line = 0, depth = 0,
             tags = [asc ''#want''], scheduled = None, start = None, outlinks = None,
             blockId = None \<rparr> []]"
  by (simp add: ghostTasks_def scan_eval)

theorem dangling_witness:
  "blockers (props (ghostTasks ! 0)) = [asc ''ghost''] \<and>
   asc ''ghost'' \<notin> (\<lambda>t. taskId (props t)) ` set ghostTasks \<and>
   asc ''ghost'' \<notin> set (concat (map collect ghostTasks)) \<and>
   nodes (data (processTasks plainView ghostTasks)) \<noteq> [] \<and>
   asc ''ghost'' \<notin> source ` set (links (data (processTasks plainView ghostTasks))) \<and>
   asc ''ghost'' \<notin> source ` set (links (data (processTasksSvg plainView ghostTasks)))"
proof -
  have a: "blockers (props (ghostTasks ! 0)) = [asc ''ghost'']" by (simp add: ghost_scan)
  have b: "asc ''ghost'' \<notin> (\<lambda>t. taskId (props t)) ` set ghostTasks" by (simp add: ghost_scan asc_def)
  have b': "asc ''ghost'' \<notin> set (concat (map collect ghostTasks))" by (simp add: ghost_scan asc_def)
  have c: "nodes (data (processTasks plainView ghostTasks)) \<noteq> []"
    by (simp add: ghost_scan processTasks_def Let_def)
  from dangling[of "asc ''ghost''" ghostTasks plainView] a b b' c show ?thesis by blast
qed

section \<open>The filter toggles\<close>

lemma create_sameToggles: "sameToggles v v' \<Longrightarrow> create v t = create v' t"
  by (induction v t rule: create.induct) (simp add: sameToggles_def Let_def create.simps cong: map_cong)

text \<open>
  Claim C9. Two runs of the SVG view's \<open>processTasks\<close> over the same task collection
  from view states that agree on \<open>showCompleted\<close>, \<open>showBlocked\<close>, \<open>showWithoutTags\<close>
  and \<open>selectedTags\<close> produce the same nodes and the same links, in the same order. In
  particular a second run right after the first changes nothing.
\<close>

theorem policyA_deterministic:
  "sameToggles v v' \<Longrightarrow> data (processTasksSvg v ts) = data (processTasksSvg v' ts)"
proof -
  assume s: "sameToggles v v'"
  then have "\<And>t. create v t = create v' t" by (rule create_sameToggles)
  with s show ?thesis by (simp add: processTasksSvg_def Let_def sameToggles_def)
qed

theorem policyA_deterministic_witness:
  "sameToggles plainView (processTasksSvg plainView ghostTasks) \<and>
   nodes (data (processTasksSvg plainView ghostTasks)) \<noteq> [] \<and>
   data (processTasksSvg plainView ghostTasks)
     = data (processTasksSvg (processTasksSvg plainView ghostTasks) ghostTasks)"
proof -
  have s: "sameToggles plainView (processTasksSvg plainView ghostTasks)"
    by (simp add: sameToggles_def processTasksSvg_def Let_def)
  have d: "nodes (data (processTasksSvg plainView ghostTasks)) \<noteq> []"
    by (simp add: ghost_scan processTasksSvg_def create.simps plainView_def truthy_def Let_def)
  from policyA_deterministic[OF s, of ghostTasks] s d show ?thesis by blast
qed

lemma canvas_nodes:
  "nodes (data (processTasks v ts)) =
     map (toNode canvasMarkers)
       (filter (\<lambda>t. \<exists>u \<in> set ts. taskId (props u) = taskId (props t) \<and> (carriesWant u \<or> linksToWant ts u)) ts)"
proof -
  let ?wants = "filter (\<lambda>t. asc ''#want'' \<in> set (tags (props t))) ts"
  let ?bids = "set (concat (map (\<lambda>t. if truthy (blockId (props t)) then [the (blockId (props t))] else []) ?wants))"
  have bids: "\<And>x. x \<in> ?bids \<longleftrightarrow> (\<exists>w \<in> set ts. carriesWant w \<and> x \<noteq> [] \<and> blockId (props w) = Some x)"
  proof
    fix x assume "x \<in> ?bids"
    then obtain w where "w \<in> set ?wants" "truthy (blockId (props w))" "x = the (blockId (props w))"
      by (auto split: if_splits)
    then show "\<exists>w \<in> set ts. carriesWant w \<and> x \<noteq> [] \<and> blockId (props w) = Some x"
      by (auto simp: carriesWant_def truthy_def split: option.splits)
  next
    fix x assume "\<exists>w \<in> set ts. carriesWant w \<and> x \<noteq> [] \<and> blockId (props w) = Some x"
    then obtain w where w: "w \<in> set ts" "carriesWant w" "x \<noteq> []" "blockId (props w) = Some x"
      by blast
    then have "w \<in> set ?wants" "truthy (blockId (props w))" "the (blockId (props w)) = x"
      by (simp_all add: carriesWant_def truthy_def)
    then show "x \<in> ?bids" by (auto intro!: bexI[of _ w])
  qed
  have linked: "\<And>t. (case outlinks (props t) of None \<Rightarrow> False | Some ls \<Rightarrow> list_ex (\<lambda>l. drop 1 l \<in> ?bids) ls)
       \<longleftrightarrow> linksToWant ts t"
    unfolding linksToWant_def list_ex_iff bids by (auto split: option.splits)
  show ?thesis
    unfolding processTasks_def Let_def linked
    by (simp add: carriesWant_def) (rule arg_cong[where f="map (toNode canvasMarkers)"], rule filter_cong, simp, force simp: image_iff)
qed

text \<open>
  Claim C10, as amended. The graph that the canvas view's \<open>processTasks\<close> emits for a
  task collection is the same from any two view states, whatever their toggles are.
  Inclusion goes by id: the nodes are the tasks whose id is the id of a task that
  carries \<open>#want\<close> or that links to the block id of a \<open>#want\<close> task, in the order of the
  collection.
\<close>

theorem canvas_toggle_noninterference:
  "data (processTasks v ts) = data (processTasks v' ts) \<and>
   nodes (data (processTasks v ts)) =
     map (toNode canvasMarkers)
       (filter (\<lambda>t. \<exists>u \<in> set ts. taskId (props u) = taskId (props t)
                        \<and> (carriesWant u \<or> linksToWant ts u)) ts)"
proof
  show "data (processTasks v ts) = data (processTasks v' ts)"
    by (simp add: processTasks_def Let_def)
  show "nodes (data (processTasks v ts)) =
     map (toNode canvasMarkers)
       (filter (\<lambda>t. \<exists>u \<in> set ts. taskId (props u) = taskId (props t)
                        \<and> (carriesWant u \<or> linksToWant ts u)) ts)"
    by (rule canvas_nodes)
qed

lemma sharedId_scan:
  "sharedIdTasks =
     [Task \<lparr> taskId = asc ''t1'', taskText = asc ''a'', completed = False, parent = None,
             blockers = [], taskFile = asc ''w.md'', line = 0, depth = 0,
             tags = [asc ''#want''], scheduled = None, start = None, outlinks = None,
             blockId = None \<rparr> [],
      Task \<lparr> taskId = asc ''t1'', taskText = asc ''b'', completed = False, parent = None,
             blockers = [], taskFile = asc ''w.md'', line = 1, depth = 0,
             tags = [], scheduled = None, start = None, outlinks = None,
             blockId = None \<rparr> []]"
  by (simp add: sharedIdTasks_def sharedIdFile_def scan_eval)

text \<open>
  A task that neither carries \<open>#want\<close> nor has any outlink is a node all the same
  when it shares its id with a \<open>#want\<close> task: \<open>wantTasks\<close> holds ids, and the filter
  asks whether the id of the task is among them.
\<close>

theorem untagged_task_included:
  "\<not> carriesWant (sharedIdTasks ! 1) \<and>
   \<not> linksToWant sharedIdTasks (sharedIdTasks ! 1) \<and>
   toNode canvasMarkers (sharedIdTasks ! 1)
     \<in> set (nodes (data (processTasks plainView sharedIdTasks)))"
proof (intro conjI)
  show "\<not> carriesWant (sharedIdTasks ! 1)"
    by (simp add: sharedId_scan carriesWant_def)
  show "\<not> linksToWant sharedIdTasks (sharedIdTasks ! 1)"
    by (simp add: sharedId_scan linksToWant_def)
  show "toNode canvasMarkers (sharedIdTasks ! 1)
     \<in> set (nodes (data (processTasks plainView sharedIdTasks)))"
    by (simp add: sharedId_scan processTasks_def Let_def toNode_def)
qed

section \<open>Pan and drag\<close>

text \<open>
  The SVG view. Apart from the wheel, the only event to which its pan/zoom behaviour
  reacts is a \<open>mousedown\<close> of button 2, the secondary button; such an event is never
  one that starts a node drag, which takes button 0, the primary button, only. In this
  view a press of the primary button never starts a pan.
\<close>

theorem pan_not_primary:
  "zoomFilter e \<Longrightarrow> evType e \<noteq> ''wheel'' \<Longrightarrow> evType e = ''mousedown'' \<and> button e = 2 \<and> \<not> dragFilter e"
  by (auto simp: zoomFilter_def dragFilter_def split: if_splits)

theorem pan_not_primary_witness:
  "zoomFilter \<lparr> evType = ''mousedown'', button = 2, ctrlKey = False \<rparr> \<and>
   evType \<lparr> evType = ''mousedown'', button = 2, ctrlKey = False \<rparr> \<noteq> ''wheel'' \<and>
   \<not> dragFilter \<lparr> evType = ''mousedown'', button = 2, ctrlKey = False \<rparr>"
proof -
  have z: "zoomFilter \<lparr> evType = ''mousedown'', button = 2, ctrlKey = False \<rparr>" by (simp add: zoomFilter_def)
  have w: "evType \<lparr> evType = ''mousedown'', button = 2, ctrlKey = False \<rparr> \<noteq> ''wheel''" by simp
  from pan_not_primary[OF z w] z w show ?thesis by blast
qed

text \<open>
  Claim C8, which the canvas view does not meet. The claim is what the SVG view does
  and what the README promises (``Left click to move nodes''). In the canvas view a
  \<open>mousedown\<close> of the primary button passes the filter of the pan/zoom behaviour and so
  starts a pan, while a \<open>mousedown\<close> of button 2 does not pass it.
\<close>

theorem canvas_pan_on_primary:
  "defaultFilter \<lparr> evType = ''mousedown'', button = 0, ctrlKey = False \<rparr> \<and>
   \<not> defaultFilter \<lparr> evType = ''mousedown'', button = 2, ctrlKey = False \<rparr>"
  by (simp add: defaultFilter_def)

theorem canvas_pan_on_primary_witness:
  "defaultFilter \<lparr> evType = ''mousedown'', button = 0, ctrlKey = False \<rparr>"
  using canvas_pan_on_primary by (rule conjunct1)

end
